theory Spec2Isabelle
  imports Complex_Main "HOL-Library.Finite_Map" "HOL-Library.Sublist"
begin

section \<open>JavaScript values and strings\<close>

text \<open>
  The session state, the condition operands and the definition bodies are JSON data.
  A value is one of the JSON shapes plus \<open>undefined\<close>. Numbers read from JSON are finite
  doubles; they are embedded in the rationals, where \<open><\<close> and \<open>=\<close> agree with the
  comparison of finite doubles (no NaN or infinity comes out of JSON). An object is a
  finite map from its own property names to values, so two objects are equal exactly when
  they have the same own properties with equal values. A string is a list of characters;
  the separators the code splits on (\<open>.\<close>, \<open>@\<close>) and the characters it tests for are
  ASCII, so splitting and searching do not depend on the character encoding.
\<close>

datatype jsval =
    JUndefined
  | JNull
  | JBool bool
  | JNum rat
  | JStr string
  | JArr "jsval list"
  | JObj "(string, jsval) fmap"

text \<open>Errors thrown by the runtime, one constructor per \<open>throw new Error(...)\<close> site.\<close>

datatype path_reason =
    MissingRootPrefix
  | ArrayOrWildcardSyntax
  | ParentTraversal
  | DangerousKey string

datatype error =
    InvalidPath path_reason
  | InvalidPageRef string

subsection \<open>String primitives\<close>

text \<open>\<open>s.split(d)\<close> for a one-character separator: always at least one piece.\<close>

fun split :: "char \<Rightarrow> string \<Rightarrow> string list" where
  "split d [] = [[]]"
| "split d (c # cs) =
     (if c = d then [] # split d cs
      else (c # hd (split d cs)) # tl (split d cs))"

text \<open>\<open>path.replace(/^\$\./, '')\<close>: drop one leading \<open>$.\<close> when there is one.\<close>

definition strip_root :: "string \<Rightarrow> string" where
  "strip_root path = (if prefix ''$.'' path then drop 2 path else path)"

text \<open>Decimal rendering of an array index, the property name of an array element.\<close>

definition digit_char :: "nat \<Rightarrow> char" where
  "digit_char n = char_of (48 + n)"

function show_nat :: "nat \<Rightarrow> string" where
  "show_nat n = (if n < 10 then [digit_char n] else show_nat (n div 10) @ [digit_char (n mod 10)])"
  by pat_completeness auto
termination
  by (relation "measure id") auto

declare show_nat.simps [simp del]

text \<open>The index a property name denotes in an array-like of length \<open>n\<close>, if any.\<close>

definition index_of_key :: "string \<Rightarrow> nat \<Rightarrow> nat option" where
  "index_of_key key n = find (\<lambda>i. show_nat i = key) [0..<n]"

subsection \<open>Property access, \<open>typeof\<close>, object spread\<close>

datatype jstype = TUndefined | TObject | TBoolean | TNumber | TString

fun typeof :: "jsval \<Rightarrow> jstype" where
  "typeof JUndefined = TUndefined"
| "typeof JNull = TObject"
| "typeof (JBool b) = TBoolean"
| "typeof (JNum n) = TNumber"
| "typeof (JStr s) = TString"
| "typeof (JArr xs) = TObject"
| "typeof (JObj m) = TObject"

text \<open>
  \<open>v[key]\<close> on the own data properties of \<open>v\<close>. The members a value inherits from the
  built-in prototypes are functions and, under \<open>__proto__\<close>, the prototype object itself;
  they are not JSON values and \<^typ>\<open>jsval\<close> has no place for them, so a key that names
  only an inherited member reads as \<open>undefined\<close> here. The writers below assign own
  properties and read them back, and the runtime resolver refuses \<open>__proto__\<close>; what
  the SDK writer does at \<open>__proto__\<close> is said where it is defined. Reading a property
  of \<open>null\<close> or \<open>undefined\<close> throws in JavaScript: every caller below tests for them
  first, so the last equation is never evaluated.
\<close>

fun get_prop :: "jsval \<Rightarrow> string \<Rightarrow> jsval" where
  "get_prop (JObj m) key = (case fmlookup m key of Some x \<Rightarrow> x | None \<Rightarrow> JUndefined)"
| "get_prop (JArr xs) key =
     (if key = ''length'' then JNum (of_nat (length xs))
      else case index_of_key key (length xs) of Some i \<Rightarrow> xs ! i | None \<Rightarrow> JUndefined)"
| "get_prop (JStr s) key =
     (if key = ''length'' then JNum (of_nat (length s))
      else case index_of_key key (length s) of Some i \<Rightarrow> JStr [s ! i] | None \<Rightarrow> JUndefined)"
| "get_prop _ key = JUndefined"

text \<open>\<open>{...v}\<close>: a fresh object holding the own enumerable properties of \<open>v\<close>.\<close>

fun spread :: "jsval \<Rightarrow> (string, jsval) fmap" where
  "spread (JObj m) = m"
| "spread (JArr xs) = fmap_of_list (zip (map show_nat [0..<length xs]) xs)"
| "spread (JStr s) = fmap_of_list (zip (map show_nat [0..<length s]) (map (\<lambda>c. JStr [c]) s))"
| "spread _ = fmempty"

section \<open>The runtime path resolver (\<open>runtime/jsonpath/index.ts\<close>)\<close>

definition dangerousKeys :: "string list" where
  "dangerousKeys = [''__proto__'', ''constructor'', ''prototype'']"

definition validatePath :: "string \<Rightarrow> error + unit" where
  "validatePath path =
     (if path \<noteq> ''$'' \<and> \<not> prefix ''$.'' path then Inl (InvalidPath MissingRootPrefix)
      else if list_ex (\<lambda>c. c \<in> set ''[]()*'') path then Inl (InvalidPath ArrayOrWildcardSyntax)
      else if sublist ''..'' path then Inl (InvalidPath ParentTraversal)
      else case find (\<lambda>part. part \<in> set dangerousKeys) (split CHR ''.'' (strip_root path)) of
             Some part \<Rightarrow> Inl (InvalidPath (DangerousKey part))
           | None \<Rightarrow> Inr ())"

fun get_loop :: "jsval \<Rightarrow> string list \<Rightarrow> jsval" where
  "get_loop current [] = current"
| "get_loop current (part # parts) =
     (if current = JNull \<or> current = JUndefined then JUndefined
      else get_loop (get_prop current part) parts)"

definition getJsonPath :: "jsval \<Rightarrow> string \<Rightarrow> error + jsval" where
  "getJsonPath obj path =
     (if path = [] \<or> path = ''$'' then Inr obj
      else case validatePath path of
             Inl e \<Rightarrow> Inl e
           | Inr _ \<Rightarrow> Inr (get_loop obj (split CHR ''.'' (strip_root path))))"

text \<open>
  The loop of \<open>setJsonPath\<close> walks down freshly copied objects and assigns into them;
  the tree it leaves behind is computed here from the inside out. \<open>current\<close> is always a
  plain object (a spread or \<open>{}\<close>), given by its properties. \<open>part in current\<close> is also
  true for an inherited member, but then \<open>typeof current[part]\<close> is \<open>function\<close> and the
  same branch is taken as for a missing property. The first equation is what the
  JavaScript would do for an empty \<open>parts\<close> (\<open>parts[-1]\<close> is \<open>undefined\<close>); \<open>split\<close> never
  returns it.
\<close>

fun set_loop :: "(string, jsval) fmap \<Rightarrow> string list \<Rightarrow> jsval \<Rightarrow> (string, jsval) fmap" where
  "set_loop current [] v = fmupd ''undefined'' v current"
| "set_loop current [part] v = fmupd part v current"
| "set_loop current (part # parts) v =
     (let child =
        (if part |\<notin>| fmdom current \<or> typeof (get_prop (JObj current) part) \<noteq> TObject
         then fmempty
         else spread (get_prop (JObj current) part))
      in fmupd part (JObj (set_loop child parts v)) current)"

definition setJsonPath :: "jsval \<Rightarrow> string \<Rightarrow> jsval \<Rightarrow> error + jsval" where
  "setJsonPath obj path v =
     (if path = [] \<or> path = ''$'' then Inr v
      else case validatePath path of
             Inl e \<Rightarrow> Inl e
           | Inr _ \<Rightarrow> Inr (JObj (set_loop (spread obj) (split CHR ''.'' (strip_root path)) v)))"

section \<open>The SDK path utilities (\<open>getByPath\<close>, \<open>setByPath\<close>)\<close>

fun getByPath_loop :: "jsval \<Rightarrow> string list \<Rightarrow> jsval" where
  "getByPath_loop current [] = current"
| "getByPath_loop current (part # parts) =
     (if current = JNull \<or> current = JUndefined then JUndefined
      else if typeof current \<noteq> TObject then JUndefined
      else getByPath_loop (get_prop current part) parts)"

definition getByPath :: "jsval \<Rightarrow> string \<Rightarrow> jsval" where
  "getByPath obj path =
     (if path = [] then JUndefined else getByPath_loop obj (split CHR ''.'' path))"

text \<open>
  The loop of \<open>setByPath\<close>, on the own properties of \<open>current\<close>. \<open>current\<close> is a plain
  object the writer has just made, so its prototype is \<open>Object.prototype\<close>, where
  \<open>__proto__\<close> is an accessor. Unless \<open>current\<close> has an own property of that name,
  \<open>current['__proto__']\<close> reads the prototype and \<open>current['__proto__'] = x\<close> runs the
  setter: the prototype of \<open>current\<close> is rebound, no own property appears, and the rest
  of the path is written into the new prototype. The own properties of \<open>current\<close> are
  then what they were. Every other inherited member is a function, for which the test
  \<open>typeof current[part] !== 'object'\<close> holds as it does for a missing property.
\<close>

fun setByPath_loop :: "(string, jsval) fmap \<Rightarrow> string list \<Rightarrow> jsval \<Rightarrow> (string, jsval) fmap" where
  "setByPath_loop current [] v = fmupd ''undefined'' v current"
| "setByPath_loop current [part] v =
     (if part = ''__proto__'' \<and> part |\<notin>| fmdom current then current
      else fmupd part v current)"
| "setByPath_loop current (part # parts) v =
     (if part = ''__proto__'' \<and> part |\<notin>| fmdom current then current
      else
        (let child =
           (if get_prop (JObj current) part = JUndefined
               \<or> typeof (get_prop (JObj current) part) \<noteq> TObject
            then fmempty
            else spread (get_prop (JObj current) part))
         in fmupd part (JObj (setByPath_loop child parts v)) current))"

definition setByPath :: "jsval \<Rightarrow> string \<Rightarrow> jsval \<Rightarrow> jsval" where
  "setByPath obj path v =
     (if path = [] then obj else JObj (setByPath_loop (spread obj) (split CHR ''.'' path) v))"

section \<open>Page references (\<open>runtime/loaders/pageLoader.ts\<close>)\<close>

definition parsePageRef :: "string \<Rightarrow> error + (string \<times> string)" where
  "parsePageRef pageRef =
     (let parts = split CHR ''@'' pageRef
      in if length parts \<noteq> 2 then Inl (InvalidPageRef pageRef)
         else Inr (parts ! 0, parts ! 1))"

section \<open>Condition evaluation (\<open>evaluateCondition\<close>)\<close>

text \<open>
  A condition is a JSON object: a simple one carries \<open>field\<close>, \<open>operator\<close> and \<open>value\<close>,
  a compound one \<open>logic\<close> and \<open>conditions\<close>. The operator and the logic are the strings
  found in the document, which need not be among the declared ones. \<open>OtherCondition\<close> is
  an object that passes neither type guard.
\<close>

datatype condition =
    SimpleCondition string string jsval
  | CompoundCondition string "condition list"
  | OtherCondition

text \<open>
  \<open>a === b\<close>. Objects and arrays are equal only to themselves; the field value lives in
  the session state and the comparison value in the condition, two separate documents,
  so a reference operand never compares equal.
\<close>

fun is_reference :: "jsval \<Rightarrow> bool" where
  "is_reference (JArr xs) = True"
| "is_reference (JObj m) = True"
| "is_reference _ = False"

definition strict_eq :: "jsval \<Rightarrow> jsval \<Rightarrow> bool" where
  "strict_eq a b = (\<not> is_reference a \<and> a = b)"

fun the_num :: "jsval \<Rightarrow> rat" where
  "the_num (JNum a) = a"
| "the_num _ = 0"

fun the_str :: "jsval \<Rightarrow> string" where
  "the_str (JStr s) = s"
| "the_str _ = []"

text \<open>
  \<open>new RegExp(pattern)\<close> is the host's regular-expression engine, taken as a parameter:
  \<open>None\<close> when the constructor throws on the pattern, otherwise the \<open>test\<close> function.
\<close>

type_synonym regexp = "string \<Rightarrow> (string \<Rightarrow> bool) option"

definition evaluateSimpleCondition ::
  "regexp \<Rightarrow> string \<Rightarrow> string \<Rightarrow> jsval \<Rightarrow> jsval \<Rightarrow> bool" where
  "evaluateSimpleCondition re fld op compareValue data =
     (let fieldValue = getByPath data fld;
          numbers = (typeof fieldValue = TNumber \<and> typeof compareValue = TNumber);
          strings = (typeof fieldValue = TString \<and> typeof compareValue = TString)
      in if op = ''eq'' then strict_eq fieldValue compareValue
         else if op = ''neq'' then \<not> strict_eq fieldValue compareValue
         else if op = ''gt'' then
           (if numbers then the_num fieldValue > the_num compareValue else False)
         else if op = ''gte'' then
           (if numbers then the_num fieldValue \<ge> the_num compareValue else False)
         else if op = ''lt'' then
           (if numbers then the_num fieldValue < the_num compareValue else False)
         else if op = ''lte'' then
           (if numbers then the_num fieldValue \<le> the_num compareValue else False)
         else if op = ''contains'' then
           (if strings then sublist (the_str compareValue) (the_str fieldValue) else False)
         else if op = ''notContains'' then
           (if strings then \<not> sublist (the_str compareValue) (the_str fieldValue) else True)
         else if op = ''startsWith'' then
           (if strings then prefix (the_str compareValue) (the_str fieldValue) else False)
         else if op = ''endsWith'' then
           (if strings then suffix (the_str compareValue) (the_str fieldValue) else False)
         else if op = ''in'' then
           (case compareValue of
              JArr xs \<Rightarrow> list_ex (\<lambda>x. strict_eq x fieldValue) xs
            | _ \<Rightarrow> False)
         else if op = ''notIn'' then
           (case compareValue of
              JArr xs \<Rightarrow> \<not> list_ex (\<lambda>x. strict_eq x fieldValue) xs
            | _ \<Rightarrow> True)
         else if op = ''empty'' then
           (fieldValue = JUndefined \<or> fieldValue = JNull \<or> fieldValue = JStr [])
         else if op = ''notEmpty'' then
           (fieldValue \<noteq> JUndefined \<and> fieldValue \<noteq> JNull \<and> fieldValue \<noteq> JStr [])
         else if op = ''matches'' then
           (if strings then
              (case re (the_str compareValue) of
                 Some test \<Rightarrow> test (the_str fieldValue)
               | None \<Rightarrow> False)
            else False)
         else False)"

text \<open>
  \<open>evaluateCondition\<close> with \<open>evaluateCompoundCondition\<close> inlined: the children are all
  evaluated (\<open>map\<close>), then reduced with \<open>every\<close> or \<open>some\<close>.
\<close>

fun evaluateCondition :: "regexp \<Rightarrow> condition \<Rightarrow> jsval \<Rightarrow> bool" where
  "evaluateCondition re (CompoundCondition lg cs) data =
     (let results = map (\<lambda>c. evaluateCondition re c data) cs
      in if lg = ''and'' then list_all (\<lambda>r. r) results
         else if lg = ''or'' then list_ex (\<lambda>r. r) results
         else False)"
| "evaluateCondition re (SimpleCondition fld op v) data =
     evaluateSimpleCondition re fld op v data"
| "evaluateCondition re OtherCondition data = False"

section \<open>Step routing and the wizard store\<close>

record wizard_step =
  step_id :: string
  step_pageRef :: "string option"

record wizard_definition =
  wizard_key :: string
  version :: string
  steps :: "wizard_step list"

text \<open>\<open>steps.findIndex(pred)\<close>, with \<open>None\<close> for \<open>-1\<close>.\<close>

fun findIndex :: "('a \<Rightarrow> bool) \<Rightarrow> 'a list \<Rightarrow> nat option" where
  "findIndex pred [] = None"
| "findIndex pred (x # xs) =
     (if pred x then Some 0 else map_option Suc (findIndex pred xs))"

definition getNextStepIdLinear :: "wizard_step list \<Rightarrow> string \<Rightarrow> string option" where
  "getNextStepIdLinear stps currentStepId =
     (case findIndex (\<lambda>s. step_id s = currentStepId) stps of
        None \<Rightarrow> None
      | Some currentIndex \<Rightarrow>
          if int currentIndex = int (length stps) - 1 then None
          else Some (step_id (stps ! (currentIndex + 1))))"

definition isLastStep :: "wizard_step list \<Rightarrow> string \<Rightarrow> bool" where
  "isLastStep stps currentStepId = (getNextStepIdLinear stps currentStepId = None)"

definition canGoBack :: "string list \<Rightarrow> bool" where
  "canGoBack hist = (length hist > 0)"

text \<open>
  The store of \<open>wizardStore\<close>: the fields the navigation and state actions read or write.
  \<open>pages\<close>, \<open>isLoading\<close> and \<open>error\<close> are touched only by the loading actions, which talk
  to the network and are not modelled.
\<close>

record wizard_state =
  wizard :: "wizard_definition option"
  sessionId :: "string option"
  currentStep :: "string option"
  stepHistory :: "string list"
  sessionState :: jsval

text \<open>The one request the navigation sends: \<open>runtimeApi.updateSession(id, state, step)\<close>.\<close>

datatype request = UpdateSession string jsval string

text \<open>\<open>!s\<close> for a \<open>string | null\<close>: \<open>null\<close> and the empty string are falsy.\<close>

fun falsy :: "string option \<Rightarrow> bool" where
  "falsy None = True"
| "falsy (Some s) = (s = [])"

type_synonym state_update = "string \<times> jsval"

fun applyStateUpdates_loop :: "jsval \<Rightarrow> state_update list \<Rightarrow> error + jsval" where
  "applyStateUpdates_loop newSessionState [] = Inr newSessionState"
| "applyStateUpdates_loop newSessionState ((path, v) # updates) =
     (case setJsonPath newSessionState path v of
        Inl e \<Rightarrow> Inl e
      | Inr s \<Rightarrow> applyStateUpdates_loop s updates)"

text \<open>An exception inside the updater leaves the store as it was: the result is the error.\<close>

definition applyStateUpdates :: "wizard_state \<Rightarrow> state_update list \<Rightarrow> error + wizard_state" where
  "applyStateUpdates st updates =
     (case applyStateUpdates_loop (sessionState st) updates of
        Inl e \<Rightarrow> Inl e
      | Inr s \<Rightarrow> Inr (st\<lparr>sessionState := s\<rparr>))"

definition setStateAtPath :: "wizard_state \<Rightarrow> string \<Rightarrow> jsval \<Rightarrow> error + wizard_state" where
  "setStateAtPath st path v =
     (case setJsonPath (sessionState st) path v of
        Inl e \<Rightarrow> Inl e
      | Inr s \<Rightarrow> Inr (st\<lparr>sessionState := s\<rparr>))"

definition getStateAtPath :: "wizard_state \<Rightarrow> string \<Rightarrow> error + jsval" where
  "getStateAtPath st path = getJsonPath (sessionState st) path"

definition goToStep :: "wizard_state \<Rightarrow> string \<Rightarrow> wizard_state" where
  "goToStep st stepId =
     (case currentStep st of
        None \<Rightarrow> st\<lparr>currentStep := Some stepId\<rparr>
      | Some cur \<Rightarrow>
          if cur = [] then st\<lparr>currentStep := Some stepId\<rparr>
          else st\<lparr>currentStep := Some stepId, stepHistory := stepHistory st @ [cur]\<rparr>)"

text \<open>
  \<open>goNext\<close> returns the new store and the requests it sent. A failed request is caught
  and logged by the source, so its outcome does not reach the store.
\<close>

definition goNext :: "wizard_state \<Rightarrow> wizard_state \<times> request list" where
  "goNext st =
     (case wizard st of
        None \<Rightarrow> (st, [])
      | Some w \<Rightarrow>
          (case currentStep st of
             None \<Rightarrow> (st, [])
           | Some cur \<Rightarrow>
               if cur = [] then (st, [])
               else if falsy (getNextStepIdLinear (steps w) cur) then (st, [])
               else
                 (let nextStepId = the (getNextStepIdLinear (steps w) cur)
                  in (goToStep st nextStepId,
                      if falsy (sessionId st) then []
                      else [UpdateSession (the (sessionId st)) (sessionState st) nextStepId]))))"

definition goBack :: "wizard_state \<Rightarrow> wizard_state" where
  "goBack st =
     (if length (stepHistory st) = 0 then st
      else st\<lparr>currentStep := Some (last (stepHistory st)),
               stepHistory := butlast (stepHistory st)\<rparr>)"

text \<open>The three-step linear wizard of the navigation scenario, and a session running it.\<close>

definition three_steps :: "wizard_step list" where
  "three_steps = [\<lparr>step_id = ''s1'', step_pageRef = None\<rparr>,
                  \<lparr>step_id = ''s2'', step_pageRef = None\<rparr>,
                  \<lparr>step_id = ''s3'', step_pageRef = None\<rparr>]"

definition session_at :: "string option \<Rightarrow> jsval \<Rightarrow> string \<Rightarrow> string list \<Rightarrow> wizard_state" where
  "session_at sid state cur hist =
     \<lparr>wizard = Some \<lparr>wizard_key = ''wizard'', version = ''v1'', steps = three_steps\<rparr>,
      sessionId = sid, currentStep = Some cur, stepHistory = hist, sessionState = state\<rparr>"

text \<open>
  The batch of patches as the specification words it: the single-path set folded over
  the list from left to right, starting from the current state; once a set has failed
  the failure is the result.
\<close>

definition patch_step :: "error + jsval \<Rightarrow> state_update \<Rightarrow> error + jsval" where
  "patch_step acc u = (case acc of Inl e \<Rightarrow> Inl e | Inr t \<Rightarrow> setJsonPath t (fst u) (snd u))"

definition fold_set_in_order :: "jsval \<Rightarrow> state_update list \<Rightarrow> error + jsval" where
  "fold_set_in_order s updates = foldl patch_step (Inr s) updates"

section \<open>The two writers on a heap of objects\<close>

text \<open>
  \<open>setJsonPath\<close> and \<open>setByPath\<close> work by assignment: they copy an object with a spread,
  store into the copy and step into it. To say what this does to the caller's tree the
  objects live in a heap here: an address is an index into a list of objects, a value is
  a primitive or a reference, \<open>{...x}\<close> and \<open>{}\<close> allocate at the end of the list, and
  \<open>current[part] = x\<close> overwrites the cell of \<open>current\<close>. As in the value model an
  object is its own properties: inherited members and prototype links are not stored.
\<close>

type_synonym addr = nat

datatype hval = HUndefined | HNull | HBool bool | HNum rat | HStr string | HRef addr

datatype hobj = HObject "(string, hval) fmap" | HArray "hval list"

type_synonym heap = "hobj list"

definition alloc :: "heap \<Rightarrow> hobj \<Rightarrow> heap \<times> addr" where
  "alloc h ob = (h @ [ob], length h)"

fun h_typeof :: "hval \<Rightarrow> jstype" where
  "h_typeof HUndefined = TUndefined"
| "h_typeof HNull = TObject"
| "h_typeof (HBool b) = TBoolean"
| "h_typeof (HNum n) = TNumber"
| "h_typeof (HStr s) = TString"
| "h_typeof (HRef a) = TObject"

fun own_prop :: "hobj \<Rightarrow> string \<Rightarrow> hval" where
  "own_prop (HObject m) key = (case fmlookup m key of Some x \<Rightarrow> x | None \<Rightarrow> HUndefined)"
| "own_prop (HArray xs) key =
     (if key = ''length'' then HNum (of_nat (length xs))
      else case index_of_key key (length xs) of Some i \<Rightarrow> xs ! i | None \<Rightarrow> HUndefined)"

fun h_get_prop :: "heap \<Rightarrow> hval \<Rightarrow> string \<Rightarrow> hval" where
  "h_get_prop h (HRef a) key = (if a < length h then own_prop (h ! a) key else HUndefined)"
| "h_get_prop h (HStr s) key =
     (if key = ''length'' then HNum (of_nat (length s))
      else case index_of_key key (length s) of Some i \<Rightarrow> HStr [s ! i] | None \<Rightarrow> HUndefined)"
| "h_get_prop h _ key = HUndefined"

fun own_enumerable :: "hobj \<Rightarrow> (string, hval) fmap" where
  "own_enumerable (HObject m) = m"
| "own_enumerable (HArray xs) = fmap_of_list (zip (map show_nat [0..<length xs]) xs)"

fun h_spread :: "heap \<Rightarrow> hval \<Rightarrow> (string, hval) fmap" where
  "h_spread h (HRef a) = (if a < length h then own_enumerable (h ! a) else fmempty)"
| "h_spread h (HStr s) = fmap_of_list (zip (map show_nat [0..<length s]) (map (\<lambda>c. HStr [c]) s))"
| "h_spread h _ = fmempty"

fun has_prop :: "hobj \<Rightarrow> string \<Rightarrow> bool" where
  "has_prop (HObject m) key = (key |\<in>| fmdom m)"
| "has_prop (HArray xs) key = (key = ''length'' \<or> index_of_key key (length xs) \<noteq> None)"

text \<open>
  \<open>current[key] = v\<close>. Both writers assign only into plain objects they have just made;
  the array equation is never evaluated.
\<close>

fun assign_prop :: "hobj \<Rightarrow> string \<Rightarrow> hval \<Rightarrow> hobj" where
  "assign_prop (HObject m) key v = HObject (fmupd key v m)"
| "assign_prop (HArray xs) key v = HArray xs"

definition h_set_prop :: "heap \<Rightarrow> addr \<Rightarrow> string \<Rightarrow> hval \<Rightarrow> heap" where
  "h_set_prop h a key v = h[a := assign_prop (h ! a) key v]"

text \<open>
  The \<open>for\<close> loop of \<open>setJsonPath\<close> over all parts but the last; it returns the heap
  and the object the last part is to be assigned in.
\<close>

fun setJsonPath_walk :: "heap \<Rightarrow> addr \<Rightarrow> string list \<Rightarrow> heap \<times> addr" where
  "setJsonPath_walk h current [] = (h, current)"
| "setJsonPath_walk h current (part # parts) =
     (let old = h_get_prop h (HRef current) part;
          (h1, fresh) =
            (if \<not> has_prop (h ! current) part \<or> h_typeof old \<noteq> TObject
             then alloc h (HObject fmempty)
             else alloc h (HObject (h_spread h old)));
          h2 = h_set_prop h1 current part (HRef fresh)
      in setJsonPath_walk h2 fresh parts)"

definition setJsonPath_heap :: "heap \<Rightarrow> hval \<Rightarrow> string \<Rightarrow> hval \<Rightarrow> error + (heap \<times> hval)" where
  "setJsonPath_heap h obj path v =
     (if path = [] \<or> path = ''$'' then Inr (h, v)
      else case validatePath path of
             Inl e \<Rightarrow> Inl e
           | Inr _ \<Rightarrow>
               (let parts = split CHR ''.'' (strip_root path);
                    (h1, result) = alloc h (HObject (h_spread h obj));
                    (h2, current) = setJsonPath_walk h1 result (butlast parts);
                    h3 = h_set_prop h2 current (last parts) v
                in Inr (h3, HRef result)))"

text \<open>The reader of the runtime resolver on the same heap.\<close>

fun getJsonPath_walk :: "heap \<Rightarrow> hval \<Rightarrow> string list \<Rightarrow> hval" where
  "getJsonPath_walk h current [] = current"
| "getJsonPath_walk h current (part # parts) =
     (if current = HNull \<or> current = HUndefined then HUndefined
      else getJsonPath_walk h (h_get_prop h current part) parts)"

definition getJsonPath_heap :: "heap \<Rightarrow> hval \<Rightarrow> string \<Rightarrow> error + hval" where
  "getJsonPath_heap h obj path =
     (if path = [] \<or> path = ''$'' then Inr obj
      else case validatePath path of
             Inl e \<Rightarrow> Inl e
           | Inr _ \<Rightarrow> Inr (getJsonPath_walk h obj (split CHR ''.'' (strip_root path))))"

text \<open>
  The tree that hangs off a value, read out of the heap down to a given depth; comparing
  snapshots at every depth is comparing two trees structurally.
\<close>

primrec snapshot :: "nat \<Rightarrow> heap \<Rightarrow> hval \<Rightarrow> jsval" where
  "snapshot 0 h v = JUndefined"
| "snapshot (Suc n) h v =
     (case v of
        HUndefined \<Rightarrow> JUndefined
      | HNull \<Rightarrow> JNull
      | HBool b \<Rightarrow> JBool b
      | HNum x \<Rightarrow> JNum x
      | HStr s \<Rightarrow> JStr s
      | HRef a \<Rightarrow>
          (if a < length h then
             (case h ! a of
                HObject m \<Rightarrow> JObj (fmmap (snapshot n h) m)
              | HArray xs \<Rightarrow> JArr (map (snapshot n h) xs))
           else JUndefined))"

text \<open>A heap is closed when every reference stored in it points into it.\<close>

fun val_in :: "nat \<Rightarrow> hval \<Rightarrow> bool" where
  "val_in n (HRef a) = (a < n)"
| "val_in n _ = True"

fun obj_in :: "nat \<Rightarrow> hobj \<Rightarrow> bool" where
  "obj_in n (HObject m) = fmpred (\<lambda>k. val_in n) m"
| "obj_in n (HArray xs) = list_all (val_in n) xs"

definition heap_closed :: "heap \<Rightarrow> bool" where
  "heap_closed h = list_all (obj_in (length h)) h"

text \<open>
  The loop of \<open>setByPath\<close> on the heap. At a part \<open>__proto__\<close> that is not an own
  property of \<open>current\<close> the accessor of \<open>Object.prototype\<close> is at work (see
  \<open>setByPath_loop\<close>): the object made for the new prototype is the spread of
  \<open>Object.prototype\<close>, which has no own enumerable property; the setter binds it as the
  prototype of \<open>current\<close>, which keeps its own properties; the walk goes on inside it.
  Prototype links are not part of this heap.
\<close>

definition proto_accessor :: "heap \<Rightarrow> addr \<Rightarrow> string \<Rightarrow> bool" where
  "proto_accessor h current part = (part = ''__proto__'' \<and> \<not> has_prop (h ! current) part)"

fun setByPath_walk :: "heap \<Rightarrow> addr \<Rightarrow> string list \<Rightarrow> heap \<times> addr" where
  "setByPath_walk h current [] = (h, current)"
| "setByPath_walk h current (part # parts) =
     (if proto_accessor h current part then
        (let (h1, fresh) = alloc h (HObject fmempty)
         in setByPath_walk h1 fresh parts)
      else
        (let old = h_get_prop h (HRef current) part;
             (h1, fresh) =
               (if old = HUndefined \<or> h_typeof old \<noteq> TObject
                then alloc h (HObject fmempty)
                else alloc h (HObject (h_spread h old)));
             h2 = h_set_prop h1 current part (HRef fresh)
         in setByPath_walk h2 fresh parts))"

definition setByPath_heap :: "heap \<Rightarrow> hval \<Rightarrow> string \<Rightarrow> hval \<Rightarrow> heap \<times> hval" where
  "setByPath_heap h obj path v =
     (if path = [] then (h, obj)
      else
        (let parts = split CHR ''.'' path;
             (h1, result) = alloc h (HObject (h_spread h obj));
             (h2, current) = setByPath_walk h1 result (butlast parts);
             h3 = (if proto_accessor h2 current (last parts) then h2
                   else h_set_prop h2 current (last parts) v)
         in (h3, HRef result)))"

text \<open>
  What a writer is to leave behind, said from the caller's tree. The object copied at a
  part of the path is the one found there in the copy of its parent, when that is an
  object (or \<open>null\<close>); otherwise nothing is copied and the new object starts empty.
\<close>

definition child_source :: "heap \<Rightarrow> hval \<Rightarrow> string \<Rightarrow> hval" where
  "child_source h old part =
     (let x = own_prop (HObject (h_spread h old)) part
      in if h_typeof x = TObject then x else HUndefined)"

text \<open>
  \<open>path_copy h h' old new parts v\<close>: in the heap \<open>h'\<close> the object at \<open>new\<close> is the shallow
  copy, taken in the caller's heap \<open>h\<close>, of \<open>old\<close> with one property rebound: the last
  part to the value \<open>v\<close>, any earlier part to a newly allocated object that is in turn
  the copy along the rest of the path of what \<open>old\<close> holds there. Every other property of
  the copy is the value \<open>old\<close> has, the same reference where it is one.
\<close>

fun path_copy :: "heap \<Rightarrow> heap \<Rightarrow> hval \<Rightarrow> addr \<Rightarrow> string list \<Rightarrow> hval \<Rightarrow> bool" where
  "path_copy h h' old new [] v = False"
| "path_copy h h' old new [part] v =
     (length h \<le> new \<and> new < length h'
      \<and> h' ! new = HObject (fmupd part v (h_spread h old)))"
| "path_copy h h' old new (part # parts) v =
     (length h \<le> new \<and> new < length h'
      \<and> (case own_prop (h' ! new) part of
            HRef child \<Rightarrow>
              new < child
              \<and> h' ! new = HObject (fmupd part (HRef child) (h_spread h old))
              \<and> path_copy h h' (child_source h old part) child parts v
          | _ \<Rightarrow> False))"

text \<open>A small heap: \<open>{a: {b: 1}, c: [3]}\<close> at address 0.\<close>

definition demo_heap :: heap where
  "demo_heap = [HObject (fmupd ''a'' (HRef 1) (fmupd ''c'' (HRef 2) fmempty)),
                HObject (fmupd ''b'' (HNum 1) fmempty),
                HArray [HNum 3]]"

text \<open>A deeper one: \<open>{a: {b: {d: 1}, k: [3]}, c: [3]}\<close> at address 0, the array shared.\<close>

definition deep_heap :: heap where
  "deep_heap = [HObject (fmupd ''a'' (HRef 1) (fmupd ''c'' (HRef 3) fmempty)),
                HObject (fmupd ''b'' (HRef 2) (fmupd ''k'' (HRef 3) fmempty)),
                HObject (fmupd ''d'' (HNum 1) fmempty),
                HArray [HNum 3]]"

text \<open>The same heap after \<open>x\<close> has been written at \<open>a.b.d\<close> of the tree at 0.\<close>

definition deep_heap' :: heap where
  "deep_heap' = deep_heap @
     [HObject (fmupd ''a'' (HRef 5) (fmupd ''c'' (HRef 3) fmempty)),
      HObject (fmupd ''b'' (HRef 6) (fmupd ''k'' (HRef 3) fmempty)),
      HObject (fmupd ''d'' (HStr ''x'') fmempty)]"

section \<open>The definition store and the publish pipeline\<close>

text \<open>
  Modelled from the spec: the definition store and the publish pipeline run in the API
  server, whose code is not among the sources (only its HTTP clients and its testing
  guides are). The two definition kinds.
\<close>

datatype kind = WizardKind | PageKind

text \<open>
  Modelled from the spec: the version discriminator, the draft marker or a published
  number; version \<open>n\<close> carries the tag \<open>vn\<close>.
\<close>

datatype version_tag = Draft | Published nat

text \<open>
  Modelled from the spec: a definition row (section 3), with the attributes the store
  and the pipeline read; timestamps are left out.
\<close>

record definition_row =
  row_kind :: kind
  logical_key :: string
  row_version :: version_tag
  row_body :: jsval
  row_checksum :: string
  created_by :: string

text \<open>Modelled from the spec: the store, the rows in insertion order.\<close>

type_synonym definition_store = "definition_row list"

text \<open>
  Modelled from the spec: the failures of a publish request (sections 4.4 and 7).
\<close>

datatype publish_error =
    NotFound
  | SchemaInvalid "(string \<times> string) list"
  | ReferentialIntegrityFailed "(string \<times> nat) list"

text \<open>
  Modelled from the spec: the draft row of a key.
\<close>

definition is_draft_of :: "kind \<Rightarrow> string \<Rightarrow> definition_row \<Rightarrow> bool" where
  "is_draft_of k key r = (row_kind r = k \<and> logical_key r = key \<and> row_version r = Draft)"

text \<open>
  Modelled from the spec: the row of a key published under a given number.
\<close>

definition is_version_of :: "kind \<Rightarrow> string \<Rightarrow> nat \<Rightarrow> definition_row \<Rightarrow> bool" where
  "is_version_of k key n r = (row_kind r = k \<and> logical_key r = key \<and> row_version r = Published n)"

text \<open>
  Modelled from the spec: \<open>getDraft(kind, key)\<close>.
\<close>

definition getDraft :: "definition_store \<Rightarrow> kind \<Rightarrow> string \<Rightarrow> definition_row option" where
  "getDraft store k key = find (is_draft_of k key) store"

text \<open>
  Modelled from the spec: \<open>getPublished(kind, key, version)\<close>.
\<close>

definition getPublished :: "definition_store \<Rightarrow> kind \<Rightarrow> string \<Rightarrow> nat \<Rightarrow> definition_row option" where
  "getPublished store k key n = find (is_version_of k key n) store"

text \<open>
  Modelled from the spec: the published number of a row of the key, 0 for any other row.
\<close>

fun published_number :: "kind \<Rightarrow> string \<Rightarrow> definition_row \<Rightarrow> nat" where
  "published_number k key r =
     (case row_version r of
        Draft \<Rightarrow> 0
      | Published n \<Rightarrow> if row_kind r = k \<and> logical_key r = key then n else 0)"

text \<open>
  Modelled from the spec: the current maximum published version of a key, 0 if none.
\<close>

definition max_published :: "definition_store \<Rightarrow> kind \<Rightarrow> string \<Rightarrow> nat" where
  "max_published store k key = foldr max (map (published_number k key) store) 0"

text \<open>
  Modelled from the spec: \<open>createNextPublishedVersion\<close> takes one more than the current
  maximum, starting at 1, inserts a new row and leaves every other row, the draft
  included, as it is.
\<close>

definition createNextPublishedVersion ::
  "definition_store \<Rightarrow> kind \<Rightarrow> string \<Rightarrow> jsval \<Rightarrow> string \<Rightarrow> string \<Rightarrow> definition_store \<times> nat" where
  "createNextPublishedVersion store k key b cs author =
     (let n = max_published store k key + 1
      in (store @ [\<lparr>row_kind = k, logical_key = key, row_version = Published n,
                     row_body = b, row_checksum = cs, created_by = author\<rparr>], n))"

text \<open>
  Modelled from the spec: what the pipeline takes from its collaborators: the schema
  validator, the extraction of the parsed page references of a wizard body, and the
  checksum over the canonical form of a body.
\<close>

record pipeline =
  schema_errors :: "kind \<Rightarrow> jsval \<Rightarrow> (string \<times> string) list"
  page_refs :: "jsval \<Rightarrow> (string \<times> nat) list"
  checksum_of :: "jsval \<Rightarrow> string"

text \<open>
  Modelled from the spec: referential integrity, for wizards only and collecting every
  reference whose exact published version is absent.
\<close>

definition missing_refs :: "pipeline \<Rightarrow> definition_store \<Rightarrow> kind \<Rightarrow> jsval \<Rightarrow> (string \<times> nat) list" where
  "missing_refs P store k b =
     (case k of
        PageKind \<Rightarrow> []
      | WizardKind \<Rightarrow>
          filter (\<lambda>(pk, n). getPublished store PageKind pk n = None) (page_refs P b))"

text \<open>
  Modelled from the spec: the publish request, terminal on the first failure: load the
  draft, validate, check the references, then create the next version from the validated
  body and its checksum.
\<close>

definition publish ::
  "pipeline \<Rightarrow> definition_store \<Rightarrow> kind \<Rightarrow> string \<Rightarrow> publish_error + (definition_store \<times> nat)" where
  "publish P store k key =
     (case getDraft store k key of
        None \<Rightarrow> Inl NotFound
      | Some d \<Rightarrow>
          if schema_errors P k (row_body d) \<noteq> [] then
            Inl (SchemaInvalid (schema_errors P k (row_body d)))
          else if missing_refs P store k (row_body d) \<noteq> [] then
            Inl (ReferentialIntegrityFailed (missing_refs P store k (row_body d)))
          else
            Inr (createNextPublishedVersion store k key (row_body d)
                   (checksum_of P (row_body d)) (created_by d)))"

text \<open>
  Modelled from the spec: a row is published when it is not the draft.
\<close>

definition is_published :: "definition_row \<Rightarrow> bool" where
  "is_published r = (case row_version r of Draft \<Rightarrow> False | Published n \<Rightarrow> True)"

text \<open>
  Modelled from the spec: the tag \<open>v1\<close>, \<open>v2\<close>, ... of a published number.
\<close>

definition version_name :: "nat \<Rightarrow> string" where
  "version_name n = CHR ''v'' # show_nat n"

text \<open>A pipeline that accepts every body, and the rows of one wizard key.\<close>

definition demo_pipeline :: pipeline where
  "demo_pipeline = \<lparr>schema_errors = (\<lambda>k b. []), page_refs = (\<lambda>b. []),
                     checksum_of = (\<lambda>b. if b = JNull then ''c0'' else ''c1'')\<rparr>"

definition demo_row :: "version_tag \<Rightarrow> jsval \<Rightarrow> string \<Rightarrow> definition_row" where
  "demo_row v b cs = \<lparr>row_kind = WizardKind, logical_key = ''w'', row_version = v,
                      row_body = b, row_checksum = cs, created_by = ''author''\<rparr>"

section \<open>Properties\<close>

subsection \<open>Strings and page references\<close>

lemma split_not_Nil: "split d s \<noteq> []"
  by (induction s) auto

lemma length_split: "length (split d s) = Suc (count_list s d)"
proof (induction s)
  case Nil
  show ?case by simp
next
  case (Cons c cs)
  have "split d cs \<noteq> []" by (rule split_not_Nil)
  then have "length (tl (split d cs)) = length (split d cs) - 1" by simp
  with Cons show ?case by simp
qed

lemma split_no_sep: "d \<notin> set s \<Longrightarrow> split d s = [s]"
  by (induction s) auto

lemma split_append_sep: "d \<notin> set k \<Longrightarrow> split d (k @ d # v) = k # split d v"
  by (induction k) auto

text \<open>
  Claim C9. A page reference with no \<open>@\<close> or with more than one is refused with
  \<open>InvalidPageRef\<close>; a key and a version joined by one \<open>@\<close> parse into exactly that pair,
  and every reference with exactly one \<open>@\<close> is of that form.
\<close>

theorem parsePageRef_exactly_one_at:
  "(count_list ref CHR ''@'' \<noteq> 1 \<longrightarrow> parsePageRef ref = Inl (InvalidPageRef ref))
   \<and> (CHR ''@'' \<notin> set pageKey \<and> CHR ''@'' \<notin> set ver \<longrightarrow>
        parsePageRef (pageKey @ ''@'' @ ver) = Inr (pageKey, ver))
   \<and> (count_list ref CHR ''@'' = 1 \<longrightarrow>
        (\<exists>k v. ref = k @ ''@'' @ v \<and> parsePageRef ref = Inr (k, v)))"
proof (intro conjI impI)
  assume "count_list ref CHR ''@'' \<noteq> 1"
  then show "parsePageRef ref = Inl (InvalidPageRef ref)"
    by (simp add: parsePageRef_def length_split)
next
  assume "CHR ''@'' \<notin> set pageKey \<and> CHR ''@'' \<notin> set ver"
  then show "parsePageRef (pageKey @ ''@'' @ ver) = Inr (pageKey, ver)"
    by (simp add: parsePageRef_def split_append_sep split_no_sep)
next
  assume one: "count_list ref CHR ''@'' = 1"
  then have "CHR ''@'' \<in> set ref"
    by (metis count_list_0_iff zero_neq_one)
  then obtain k v where kv: "ref = k @ CHR ''@'' # v" "CHR ''@'' \<notin> set k"
    by (meson split_list_first)
  with one have "CHR ''@'' \<notin> set v"
    by (simp add: count_list_0_iff)
  with kv have "parsePageRef ref = Inr (k, v)"
    by (simp add: parsePageRef_def split_append_sep split_no_sep)
  with kv show "\<exists>k v. ref = k @ ''@'' @ v \<and> parsePageRef ref = Inr (k, v)"
    by auto
qed

theorem parsePageRef_exactly_one_at_witness:
  "parsePageRef ''key'' = Inl (InvalidPageRef ''key'')
   \<and> parsePageRef ''a@b@c'' = Inl (InvalidPageRef ''a@b@c'')
   \<and> parsePageRef ''page.travel.selectPlan@v1'' = Inr (''page.travel.selectPlan'', ''v1'')"
  using parsePageRef_exactly_one_at [of "''key''" "[]" "[]"]
    parsePageRef_exactly_one_at [of "''a@b@c''" "''page.travel.selectPlan''" "''v1''"]
  by simp

subsection \<open>The runtime resolver: rejection, round trip, overwriting\<close>

lemmas path_eval = validatePath_def strip_root_def dangerousKeys_def sublist_code

lemma validatePath_rejects:
  assumes "(\<exists>seg. seg \<in> set (split CHR ''.'' path) \<and> seg \<in> set dangerousKeys)
           \<or> sublist ''..'' path \<or> CHR ''*'' \<in> set path"
  shows "\<exists>r. validatePath path = Inl (InvalidPath r)"
proof (cases "path \<noteq> ''$'' \<and> \<not> prefix ''$.'' path")
  case True
  then show ?thesis by (simp add: validatePath_def)
next
  case pref: False
  show ?thesis
  proof (cases "list_ex (\<lambda>c. c \<in> set ''[]()*'') path")
    case True
    with pref show ?thesis by (simp add: validatePath_def)
  next
    case nosyn: False
    then have nostar: "CHR ''*'' \<notin> set path" by (auto simp: list_ex_iff)
    show ?thesis
    proof (cases "sublist ''..'' path")
      case True
      with pref nosyn show ?thesis by (simp add: validatePath_def)
    next
      case nodots: False
      with assms nostar obtain seg
        where seg: "seg \<in> set (split CHR ''.'' path)" "seg \<in> set dangerousKeys"
        by blast
      have "seg \<in> set (split CHR ''.'' (strip_root path))"
      proof (cases "path = ''$''")
        case True
        with seg show ?thesis by (simp add: dangerousKeys_def)
      next
        case False
        with pref obtain rest where rest: "path = ''$.'' @ rest" by (auto simp: prefix_def)
        with seg have "seg \<in> set (split CHR ''.'' rest)"
          by (auto simp: dangerousKeys_def)
        with rest show ?thesis by (simp add: strip_root_def)
      qed
      with seg(2)
      have "find (\<lambda>part. part \<in> set dangerousKeys) (split CHR ''.'' (strip_root path)) \<noteq> None"
        by (auto simp: find_None_iff)
      then obtain part
        where "find (\<lambda>part. part \<in> set dangerousKeys) (split CHR ''.'' (strip_root path)) = Some part"
        by auto
      with pref nosyn nodots show ?thesis by (simp add: validatePath_def)
    qed
  qed
qed

text \<open>
  The runtime resolver refuses every path with a reserved segment, a \<open>..\<close> or a \<open>*\<close>,
  on reading and on writing, whatever the tree and the other segments are.
\<close>

lemma runtime_resolver_rejects:
  assumes "(\<exists>seg. seg \<in> set (split CHR ''.'' path) \<and> seg \<in> set dangerousKeys)
           \<or> sublist ''..'' path \<or> CHR ''*'' \<in> set path"
  shows "(\<exists>r. getJsonPath t path = Inl (InvalidPath r))
         \<and> (\<exists>r. setJsonPath t path v = Inl (InvalidPath r))"
proof -
  from assms obtain r where r: "validatePath path = Inl (InvalidPath r)"
    using validatePath_rejects by blast
  from assms have "path \<noteq> [] \<and> path \<noteq> ''$''"
    by (auto simp: dangerousKeys_def sublist_code)
  with r show ?thesis by (simp add: getJsonPath_def setJsonPath_def)
qed

text \<open>
  Claim C1. The claim asks for the rejection at every path-access entry point. The SDK
  utilities \<open>getByPath\<close> and \<open>setByPath\<close> check nothing: a path that is, or ends in, a
  reserved key, and a path that is \<open>*\<close>, are read and written like any other.
\<close>

theorem sdk_paths_unchecked:
  "setByPath (JObj fmempty) ''constructor'' (JNum 1)
     = JObj (fmupd ''constructor'' (JNum 1) fmempty)
   \<and> getByPath (JObj (fmupd ''a'' (JObj (fmupd ''prototype'' (JNum 7) fmempty)) fmempty))
       ''a.prototype'' = JNum 7
   \<and> getByPath (JObj (fmupd ''*'' (JNum 3) fmempty)) ''*'' = JNum 3
   \<and> getByPath (JObj (fmupd [] (JObj (fmupd [] (JObj (fmupd [] (JNum 9) fmempty)) fmempty)) fmempty))
       ''..'' = JNum 9"
  by (simp add: setByPath_def getByPath_def)

lemma get_set_loop: "parts \<noteq> [] \<Longrightarrow> get_loop (JObj (set_loop cur parts v)) parts = v"
proof (induction cur parts v rule: set_loop.induct)
  case (1 current v)
  then show ?case by simp
next
  case (2 current part v)
  show ?case by simp
next
  case (3 current part p ps v)
  then show ?case by (simp add: Let_def)
qed

lemma set_then_get: "setJsonPath t path v = Inr t' \<Longrightarrow> getJsonPath t' path = Inr v"
proof (cases "path = [] \<or> path = ''$''")
  case True
  assume "setJsonPath t path v = Inr t'"
  with True show ?thesis by (auto simp: setJsonPath_def getJsonPath_def)
next
  case False
  assume a: "setJsonPath t path v = Inr t'"
  let ?parts = "split CHR ''.'' (strip_root path)"
  from a False have ok: "validatePath path = Inr ()"
    by (auto simp: setJsonPath_def split: sum.splits)
  with a False have t': "t' = JObj (set_loop (spread t) ?parts v)"
    by (simp add: setJsonPath_def)
  have "get_loop (JObj (set_loop (spread t) ?parts v)) ?parts = v"
    by (rule get_set_loop) (rule split_not_Nil)
  with False ok t' show ?thesis by (simp add: getJsonPath_def)
qed

lemma set_succeeds:
  "path = [] \<or> validatePath path = Inr () \<Longrightarrow> \<exists>t'. setJsonPath t path v = Inr t'"
  by (auto simp: setJsonPath_def)

lemma set_loop_overwrite:
  "parts \<noteq> [] \<Longrightarrow> set_loop (set_loop cur parts v1) parts v2 = set_loop cur parts v2"
proof (induction cur parts v1 rule: set_loop.induct)
  case (1 current v)
  then show ?case by simp
next
  case (2 current part v)
  show ?case by simp
next
  case (3 current part p ps v)
  then show ?case by (simp add: Let_def)
qed

lemma setJsonPath_overwrite:
  "setJsonPath t p v1 = Inr t1 \<Longrightarrow> setJsonPath t1 p v2 = setJsonPath t p v2"
proof (cases "p = [] \<or> p = ''$''")
  case True
  then show ?thesis by (auto simp: setJsonPath_def)
next
  case False
  assume a: "setJsonPath t p v1 = Inr t1"
  from a False have ok: "validatePath p = Inr ()"
    by (auto simp: setJsonPath_def split: sum.splits)
  with a False have "t1 = JObj (set_loop (spread t) (split CHR ''.'' (strip_root p)) v1)"
    by (simp add: setJsonPath_def)
  with False ok show ?thesis
    by (simp add: setJsonPath_def set_loop_overwrite split_not_Nil)
qed

subsection \<open>Batched state updates\<close>

lemma foldl_patch_step_Inl: "foldl patch_step (Inl e) us = Inl e"
  by (induction us) (simp_all add: patch_step_def)

lemma loop_is_fold: "applyStateUpdates_loop s us = foldl patch_step (Inr s) us"
proof (induction s us rule: applyStateUpdates_loop.induct)
  case (1 s)
  show ?case by simp
next
  case (2 s path v updates)
  show ?case
  proof (cases "setJsonPath s path v")
    case (Inl e)
    then have "patch_step (Inr s) (path, v) = Inl e" by (simp add: patch_step_def)
    with Inl show ?thesis by (simp add: foldl_patch_step_Inl)
  next
    case (Inr t)
    then have "patch_step (Inr s) (path, v) = Inr t" by (simp add: patch_step_def)
    with Inr 2 show ?thesis by simp
  qed
qed

lemma loop_snoc:
  "applyStateUpdates_loop s (us @ [(p, v)]) =
     (case applyStateUpdates_loop s us of Inl e \<Rightarrow> Inl e | Inr t \<Rightarrow> setJsonPath t p v)"
  by (simp add: loop_is_fold patch_step_def split: sum.splits)

text \<open>
  Claim C10. \<open>applyStateUpdates\<close> is the fold of \<open>setJsonPath\<close> over the patches in list
  order, starting from the session state of the store; the empty batch returns the store
  as it is; after a batch that went through, the path of its last patch reads back the
  value of that patch, whatever earlier patches wrote there; and two patches in a row to
  one path leave what the second alone leaves.
\<close>

theorem applyStateUpdates_is_fold:
  "applyStateUpdates st updates =
     (case fold_set_in_order (sessionState st) updates of
        Inl e \<Rightarrow> Inl e
      | Inr s \<Rightarrow> Inr (st\<lparr>sessionState := s\<rparr>))
   \<and> applyStateUpdates st [] = Inr st
   \<and> (applyStateUpdates st (updates @ [(p, v)]) = Inr st' \<longrightarrow> getStateAtPath st' p = Inr v)
   \<and> (setJsonPath (sessionState st) p v1 = Inr t1 \<longrightarrow>
        applyStateUpdates st [(p, v1), (p, v2)] = applyStateUpdates st [(p, v2)])"
proof (intro conjI impI)
  show "applyStateUpdates st updates =
     (case fold_set_in_order (sessionState st) updates of
        Inl e \<Rightarrow> Inl e
      | Inr s \<Rightarrow> Inr (st\<lparr>sessionState := s\<rparr>))"
    by (simp add: applyStateUpdates_def fold_set_in_order_def loop_is_fold)
  show "applyStateUpdates st [] = Inr st"
    by (simp add: applyStateUpdates_def)
next
  assume a: "applyStateUpdates st (updates @ [(p, v)]) = Inr st'"
  then obtain s' where s': "applyStateUpdates_loop (sessionState st) (updates @ [(p, v)]) = Inr s'"
    and st': "st' = st\<lparr>sessionState := s'\<rparr>"
    by (auto simp: applyStateUpdates_def split: sum.splits)
  from s' obtain t where "setJsonPath t p v = Inr s'"
    by (auto simp: loop_snoc split: sum.splits)
  then have "getJsonPath s' p = Inr v" by (rule set_then_get)
  with st' show "getStateAtPath st' p = Inr v"
    by (simp add: getStateAtPath_def)
next
  assume "setJsonPath (sessionState st) p v1 = Inr t1"
  then show "applyStateUpdates st [(p, v1), (p, v2)] = applyStateUpdates st [(p, v2)]"
    by (simp add: applyStateUpdates_def setJsonPath_overwrite)
qed

theorem applyStateUpdates_is_fold_witness:
  "applyStateUpdates (session_at None (JObj fmempty) ''s1'' []) [(''$.a'', JNum 1), (''$.a'', JNum 2)]
     = Inr (session_at None (JObj (fmupd ''a'' (JNum 2) fmempty)) ''s1'' [])
   \<and> getStateAtPath (session_at None (JObj (fmupd ''a'' (JNum 2) fmempty)) ''s1'' []) ''$.a''
     = Inr (JNum 2)
   \<and> applyStateUpdates (session_at None (JObj fmempty) ''s1'' []) [(''$.a'', JNum 2)]
     = Inr (session_at None (JObj (fmupd ''a'' (JNum 2) fmempty)) ''s1'' [])"
proof -
  let ?st = "session_at None (JObj fmempty) ''s1'' []"
  let ?st' = "session_at None (JObj (fmupd ''a'' (JNum 2) fmempty)) ''s1'' []"
  have run: "applyStateUpdates ?st ([(''$.a'', JNum 1)] @ [(''$.a'', JNum 2)]) = Inr ?st'"
    by (simp add: applyStateUpdates_def setJsonPath_def path_eval session_at_def)
  have one: "setJsonPath (sessionState ?st) ''$.a'' (JNum 1) = Inr (JObj (fmupd ''a'' (JNum 1) fmempty))"
    by (simp add: setJsonPath_def path_eval session_at_def)
  from applyStateUpdates_is_fold [of ?st "[(''$.a'', JNum 1)]" "''$.a''" "JNum 2" ?st' "JNum 1"
      "JObj (fmupd ''a'' (JNum 1) fmempty)" "JNum 2"] run one
  show ?thesis by simp
qed

subsection \<open>Conditions\<close>

text \<open>
  Claim C5. A compound condition over two children is their conjunction under \<open>and\<close> and
  their disjunction under \<open>or\<close>; under any other \<open>logic\<close> it is false, whatever the
  children are.
\<close>

theorem compound_and_or:
  "evaluateCondition re (CompoundCondition ''and'' [A, B]) s
     = (evaluateCondition re A s \<and> evaluateCondition re B s)
   \<and> evaluateCondition re (CompoundCondition ''or'' [A, B]) s
     = (evaluateCondition re A s \<or> evaluateCondition re B s)
   \<and> (lg \<noteq> ''and'' \<and> lg \<noteq> ''or'' \<longrightarrow> evaluateCondition re (CompoundCondition lg cs) s = False)"
  by simp

theorem compound_and_or_witness:
  "evaluateCondition (\<lambda>p. None) (CompoundCondition ''xor'' [OtherCondition]) JNull = False"
  using compound_and_or [of "\<lambda>p. None" OtherCondition OtherCondition JNull "''xor''" "[OtherCondition]"]
  by simp

lemma typeof_number: "typeof x = TNumber \<longleftrightarrow> (\<exists>a. x = JNum a)"
  by (cases x) auto

lemma esc_gt: "evaluateSimpleCondition re fld ''gt'' v d =
   (typeof (getByPath d fld) = TNumber \<and> typeof v = TNumber
    \<and> the_num (getByPath d fld) > the_num v)"
  unfolding evaluateSimpleCondition_def Let_def
  by (cases "typeof (getByPath d fld) = TNumber"; cases "typeof v = TNumber"; simp)

lemma esc_gte: "evaluateSimpleCondition re fld ''gte'' v d =
   (typeof (getByPath d fld) = TNumber \<and> typeof v = TNumber
    \<and> the_num (getByPath d fld) \<ge> the_num v)"
  unfolding evaluateSimpleCondition_def Let_def
  by (cases "typeof (getByPath d fld) = TNumber"; cases "typeof v = TNumber"; simp)

lemma esc_lt: "evaluateSimpleCondition re fld ''lt'' v d =
   (typeof (getByPath d fld) = TNumber \<and> typeof v = TNumber
    \<and> the_num (getByPath d fld) < the_num v)"
  unfolding evaluateSimpleCondition_def Let_def
  by (cases "typeof (getByPath d fld) = TNumber"; cases "typeof v = TNumber"; simp)

lemma esc_lte: "evaluateSimpleCondition re fld ''lte'' v d =
   (typeof (getByPath d fld) = TNumber \<and> typeof v = TNumber
    \<and> the_num (getByPath d fld) \<le> the_num v)"
  unfolding evaluateSimpleCondition_def Let_def
  by (cases "typeof (getByPath d fld) = TNumber"; cases "typeof v = TNumber"; simp)

lemma getByPath_a_b:
  "getByPath (JObj (fmupd ''a'' (JObj (fmupd ''b'' x fmempty)) fmempty)) ''a.b'' = x"
  by (simp add: getByPath_def)

text \<open>
  Claim C6. Under \<open>gt\<close>, \<open>gte\<close>, \<open>lt\<close> and \<open>lte\<close> a simple condition holds exactly when
  the value found at the field and the comparison value are both numbers and the
  numbers compare so; with any other operand it is false. So \<open>a.b > 5\<close> holds over
  \<open>{a:{b:10}}\<close> and fails over \<open>{a:{b:"x"}}\<close>.
\<close>

theorem numeric_operators:
  "(op \<in> {''gt'', ''gte'', ''lt'', ''lte''} \<longrightarrow>
      evaluateCondition re (SimpleCondition fld op v) d =
        (\<exists>a b. getByPath d fld = JNum a \<and> v = JNum b \<and>
           (if op = ''gt'' then a > b else if op = ''gte'' then a \<ge> b
            else if op = ''lt'' then a < b else a \<le> b)))
   \<and> evaluateCondition re (SimpleCondition ''a.b'' ''gt'' (JNum 5))
        (JObj (fmupd ''a'' (JObj (fmupd ''b'' (JNum 10) fmempty)) fmempty)) = True
   \<and> evaluateCondition re (SimpleCondition ''a.b'' ''gt'' (JNum 5))
        (JObj (fmupd ''a'' (JObj (fmupd ''b'' (JStr ''x'') fmempty)) fmempty)) = False"
proof (intro conjI impI)
  assume "op \<in> {''gt'', ''gte'', ''lt'', ''lte''}"
  then consider "op = ''gt''" | "op = ''gte''" | "op = ''lt''" | "op = ''lte''"
    by auto
  then show "evaluateCondition re (SimpleCondition fld op v) d =
        (\<exists>a b. getByPath d fld = JNum a \<and> v = JNum b \<and>
           (if op = ''gt'' then a > b else if op = ''gte'' then a \<ge> b
            else if op = ''lt'' then a < b else a \<le> b))"
  proof cases
    case 1
    then show ?thesis by (auto simp: esc_gt typeof_number)
  next
    case 2
    then show ?thesis by (auto simp: esc_gte typeof_number)
  next
    case 3
    then show ?thesis by (auto simp: esc_lt typeof_number)
  next
    case 4
    then show ?thesis by (auto simp: esc_lte typeof_number)
  qed
next
  show "evaluateCondition re (SimpleCondition ''a.b'' ''gt'' (JNum 5))
        (JObj (fmupd ''a'' (JObj (fmupd ''b'' (JNum 10) fmempty)) fmempty)) = True"
    by (simp add: esc_gt getByPath_a_b)
  show "evaluateCondition re (SimpleCondition ''a.b'' ''gt'' (JNum 5))
        (JObj (fmupd ''a'' (JObj (fmupd ''b'' (JStr ''x'') fmempty)) fmempty)) = False"
    by (simp add: esc_gt getByPath_a_b)
qed

theorem numeric_operators_witness:
  "evaluateCondition (\<lambda>p. None) (SimpleCondition ''a.b'' ''lte'' (JNum 5))
     (JObj (fmupd ''a'' (JObj (fmupd ''b'' (JNum 3) fmempty)) fmempty)) = True
   \<and> evaluateCondition (\<lambda>p. None) (SimpleCondition ''a.b'' ''lte'' (JNum 5))
     (JObj (fmupd ''a'' (JObj (fmupd ''b'' JNull fmempty)) fmempty)) = False"
proof -
  have m: "''lte'' \<in> {''gt'', ''gte'', ''lt'', ''lte''}" by simp
  show ?thesis
    using numeric_operators [of "''lte''" "\<lambda>p. None" "''a.b''" "JNum 5"
        "JObj (fmupd ''a'' (JObj (fmupd ''b'' (JNum 3) fmempty)) fmempty)"]
      numeric_operators [of "''lte''" "\<lambda>p. None" "''a.b''" "JNum 5"
        "JObj (fmupd ''a'' (JObj (fmupd ''b'' JNull fmempty)) fmempty)"]
    by (simp add: getByPath_a_b)
qed

subsection \<open>Linear navigation\<close>

lemma findIndex_Some:
  "findIndex pred xs = Some i \<longleftrightarrow> i < length xs \<and> pred (xs ! i) \<and> (\<forall>j<i. \<not> pred (xs ! j))"
proof (induction xs arbitrary: i)
  case Nil
  show ?case by simp
next
  case (Cons x xs)
  show ?case
  proof (cases "pred x")
    case True
    then show ?thesis by (cases i) auto
  next
    case False
    show ?thesis
    proof (cases i)
      case 0
      with False show ?thesis by simp
    next
      case (Suc k)
      have "(\<forall>j<Suc k. \<not> pred ((x # xs) ! j)) \<longleftrightarrow> (\<forall>j<k. \<not> pred (xs ! j))"
        using False by (auto simp: less_Suc_eq_0_disj)
      with Suc False Cons.IH [of k] show ?thesis by auto
    qed
  qed
qed

lemma getNextStepIdLinear_next:
  assumes "i + 1 < length stps" "step_id (stps ! i) = cur"
    and "\<forall>j<i. step_id (stps ! j) \<noteq> cur"
  shows "getNextStepIdLinear stps cur = Some (step_id (stps ! (i + 1)))"
proof -
  from assms have "findIndex (\<lambda>s. step_id s = cur) stps = Some i"
    by (simp add: findIndex_Some)
  with assms(1) show ?thesis
    by (simp add: getNextStepIdLinear_def)
qed

lemma getNextStepIdLinear_last:
  assumes "stps \<noteq> []" "step_id (last stps) = cur"
    and "\<forall>j<length stps - 1. step_id (stps ! j) \<noteq> cur"
  shows "getNextStepIdLinear stps cur = None"
proof -
  from assms have "findIndex (\<lambda>s. step_id s = cur) stps = Some (length stps - 1)"
    by (simp add: findIndex_Some last_conv_nth)
  moreover from assms(1) have "int (length stps - 1) = int (length stps) - 1"
    by (cases stps) simp_all
  ultimately show ?thesis
    by (simp add: getNextStepIdLinear_def)
qed

lemmas nav_eval = goNext_def goToStep_def goBack_def session_at_def three_steps_def
  getNextStepIdLinear_def Let_def

lemma goNext_step:
  assumes "wizard st = Some w" "currentStep st = Some cur" "cur \<noteq> []"
    and "i + 1 < length (steps w)" "step_id (steps w ! i) = cur"
    and "\<forall>j<i. step_id (steps w ! j) \<noteq> cur"
    and "step_id (steps w ! (i + 1)) \<noteq> []"
  shows "fst (goNext st) =
     st\<lparr>currentStep := Some (step_id (steps w ! (i + 1))), stepHistory := stepHistory st @ [cur]\<rparr>"
proof -
  from assms have "getNextStepIdLinear (steps w) cur = Some (step_id (steps w ! (i + 1)))"
    by (intro getNextStepIdLinear_next) auto
  with assms show ?thesis
    by (simp add: goNext_def goToStep_def Let_def)
qed

lemma goBack_step:
  assumes "stepHistory st = hist @ [prev]"
  shows "goBack st = st\<lparr>currentStep := Some prev, stepHistory := hist\<rparr>"
  using assms by (simp add: goBack_def)

text \<open>
  Claim C7. In the three-step wizard a session at \<open>s1\<close> with no history advances to
  \<open>s2\<close> with history \<open>[s1]\<close>, then to \<open>s3\<close> with \<open>[s1, s2]\<close>; going back lands on \<open>s2\<close>
  with \<open>[s1]\<close>, and advancing once more reaches \<open>s3\<close> with \<open>[s1, s2]\<close> again. In general,
  when the current step is the \<open>i\<close>-th declared step and a step follows it, \<open>goNext\<close>
  moves to that step and appends the step it left to the history; \<open>goBack\<close> on a history
  ending in \<open>prev\<close> makes \<open>prev\<close> current and drops it from the history.
\<close>

theorem linear_navigation:
  "fst (goNext (session_at sid state ''s1'' [])) = session_at sid state ''s2'' [''s1'']
   \<and> fst (goNext (session_at sid state ''s2'' [''s1''])) = session_at sid state ''s3'' [''s1'', ''s2'']
   \<and> goBack (session_at sid state ''s3'' [''s1'', ''s2'']) = session_at sid state ''s2'' [''s1'']
   \<and> fst (goNext (goBack (fst (goNext (fst (goNext (session_at sid state ''s1'' [])))))))
       = session_at sid state ''s3'' [''s1'', ''s2'']
   \<and> (wizard st = Some w \<and> currentStep st = Some cur \<and> cur \<noteq> []
        \<and> i + 1 < length (steps w) \<and> step_id (steps w ! i) = cur
        \<and> (\<forall>j<i. step_id (steps w ! j) \<noteq> cur) \<and> step_id (steps w ! (i + 1)) \<noteq> []
      \<longrightarrow> fst (goNext st) =
            st\<lparr>currentStep := Some (step_id (steps w ! (i + 1))),
               stepHistory := stepHistory st @ [cur]\<rparr>)
   \<and> (stepHistory st = hist @ [prev]
      \<longrightarrow> goBack st = st\<lparr>currentStep := Some prev, stepHistory := hist\<rparr>)"
proof (intro conjI impI)
  show a1: "fst (goNext (session_at sid state ''s1'' [])) = session_at sid state ''s2'' [''s1'']"
    by (simp add: nav_eval)
  show a2: "fst (goNext (session_at sid state ''s2'' [''s1'']))
      = session_at sid state ''s3'' [''s1'', ''s2'']"
    by (simp add: nav_eval)
  show b: "goBack (session_at sid state ''s3'' [''s1'', ''s2'']) = session_at sid state ''s2'' [''s1'']"
    by (simp add: nav_eval)
  show "fst (goNext (goBack (fst (goNext (fst (goNext (session_at sid state ''s1'' [])))))))
       = session_at sid state ''s3'' [''s1'', ''s2'']"
    by (simp only: a1 a2 b)
next
  assume "wizard st = Some w \<and> currentStep st = Some cur \<and> cur \<noteq> []
        \<and> i + 1 < length (steps w) \<and> step_id (steps w ! i) = cur
        \<and> (\<forall>j<i. step_id (steps w ! j) \<noteq> cur) \<and> step_id (steps w ! (i + 1)) \<noteq> []"
  then show "fst (goNext st) =
            st\<lparr>currentStep := Some (step_id (steps w ! (i + 1))),
               stepHistory := stepHistory st @ [cur]\<rparr>"
    using goNext_step [of st w cur i] by blast
next
  assume "stepHistory st = hist @ [prev]"
  then show "goBack st = st\<lparr>currentStep := Some prev, stepHistory := hist\<rparr>"
    by (rule goBack_step)
qed

theorem linear_navigation_witness:
  "fst (goNext (session_at None JNull ''s2'' [''s1''])) = session_at None JNull ''s3'' [''s1'', ''s2'']
   \<and> goBack (session_at None JNull ''s3'' [''s1'', ''s2'']) = session_at None JNull ''s2'' [''s1'']"
  using linear_navigation [of None JNull "session_at None JNull ''s2'' [''s1'']"
      "\<lparr>wizard_key = ''wizard'', version = ''v1'', steps = three_steps\<rparr>" "''s2''" 1 "[''s1'']" "''s2''"]
    linear_navigation [of None JNull "session_at None JNull ''s3'' [''s1'', ''s2'']"
      "\<lparr>wizard_key = ''wizard'', version = ''v1'', steps = three_steps\<rparr>" "''s2''" 1 "[''s1'']" "''s2''"]
  by (simp add: session_at_def three_steps_def)

text \<open>
  Claim C8. On the last step of the three-step wizard \<open>goNext\<close> finds no next step and
  returns at once: the store comes back as it went in and no request is sent. No step id
  is produced, and nothing records or signals that the wizard is complete.
\<close>

theorem goNext_on_last_step:
  "getNextStepIdLinear three_steps ''s3'' = None
   \<and> goNext (session_at sid state ''s3'' hist) = (session_at sid state ''s3'' hist, [])"
  by (simp add: nav_eval)

subsection \<open>The writers leave the caller's tree alone\<close>

lemma length_set_prop [simp]: "length (h_set_prop h a key v) = length h"
  by (simp add: h_set_prop_def)

lemma nth_set_prop_other: "a \<noteq> b \<Longrightarrow> h_set_prop h b key v ! a = h ! a"
  by (simp add: h_set_prop_def)

lemma nth_set_prop_same: "b < length h \<Longrightarrow> h_set_prop h b key v ! b = assign_prop (h ! b) key v"
  by (simp add: h_set_prop_def)

lemma setJsonPath_walk_cells:
  "setJsonPath_walk h current parts = (h', c') \<Longrightarrow> current < length h \<Longrightarrow>
     (\<forall>a<length h. a \<noteq> current \<longrightarrow> h' ! a = h ! a) \<and> length h \<le> length h' \<and>
     (case parts of
        [] \<Rightarrow> h' = h \<and> c' = current
      | part # rest \<Rightarrow> length h \<le> c' \<and> c' < length h'
          \<and> (\<exists>x. h' ! current = assign_prop (h ! current) part x))"
proof (induction parts arbitrary: h current)
  case Nil
  then show ?case by simp
next
  case (Cons part parts)
  define ob where "ob = (if \<not> has_prop (h ! current) part
        \<or> h_typeof (h_get_prop h (HRef current) part) \<noteq> TObject
      then HObject fmempty
      else HObject (h_spread h (h_get_prop h (HRef current) part)))"
  define h2 where "h2 = h_set_prop (h @ [ob]) current part (HRef (length h))"
  from Cons.prems(1) have run: "setJsonPath_walk h2 (length h) parts = (h', c')"
    by (auto simp: Let_def alloc_def ob_def h2_def)
  have len: "length h2 = Suc (length h)" by (simp add: h2_def)
  then have "length h < length h2" by simp
  from Cons.IH [OF run this]
  have keep: "\<forall>a<length h2. a \<noteq> length h \<longrightarrow> h' ! a = h2 ! a"
    and grow: "length h2 \<le> length h'"
    and tail: "case parts of [] \<Rightarrow> h' = h2 \<and> c' = length h
               | p # rest \<Rightarrow> length h2 \<le> c' \<and> c' < length h'
                   \<and> (\<exists>x. h' ! length h = assign_prop (h2 ! length h) p x)"
    by simp_all
  from Cons.prems(2) have cur2: "h2 ! current = assign_prop (h ! current) part (HRef (length h))"
    by (simp add: h2_def nth_set_prop_same nth_append)
  have other2: "h2 ! a = h ! a" if "a < length h" "a \<noteq> current" for a
    using that by (simp add: h2_def nth_set_prop_other nth_append)
  have "\<forall>a<length h. a \<noteq> current \<longrightarrow> h' ! a = h ! a"
    using keep len other2 by auto
  moreover have "length h \<le> length h'" using grow len by simp
  moreover have "length h \<le> c' \<and> c' < length h'"
    using tail len grow by (cases parts) auto
  moreover have "\<exists>x. h' ! current = assign_prop (h ! current) part x"
    using keep len Cons.prems(2) cur2 by auto
  ultimately show ?case by simp
qed

lemma setByPath_walk_frame:
  "setByPath_walk h current parts = (h', c') \<Longrightarrow> n \<le> current \<Longrightarrow> current < length h \<Longrightarrow>
     take n h' = take n h \<and> n \<le> c' \<and> c' < length h'"
proof (induction parts arbitrary: h current)
  case Nil
  then show ?case by simp
next
  case (Cons part parts)
  from Cons.prems(2,3) have n: "n \<le> length h" by simp
  show ?case
  proof (cases "proto_accessor h current part")
    case True
    with Cons.prems(1) have run: "setByPath_walk (h @ [HObject fmempty]) (length h) parts = (h', c')"
      by (simp add: alloc_def)
    from Cons.IH [OF run n] n show ?thesis by simp
  next
    case False
    define ob where "ob = (if h_get_prop h (HRef current) part = HUndefined
          \<or> h_typeof (h_get_prop h (HRef current) part) \<noteq> TObject
        then HObject fmempty
        else HObject (h_spread h (h_get_prop h (HRef current) part)))"
    define h2 where "h2 = h_set_prop (h @ [ob]) current part (HRef (length h))"
    from Cons.prems(1) False have run: "setByPath_walk h2 (length h) parts = (h', c')"
      by (auto simp: Let_def alloc_def ob_def h2_def)
    have len: "length h2 = Suc (length h)" by (simp add: h2_def)
    with n have "take n h' = take n h2 \<and> n \<le> c' \<and> c' < length h'"
      using Cons.IH [OF run] by simp
    moreover from Cons.prems(2) n have "take n h2 = take n h"
      by (simp add: h2_def h_set_prop_def take_update_cancel)
    ultimately show ?thesis by simp
  qed
qed

lemma own_prop_missing: "\<not> has_prop ob key \<Longrightarrow> own_prop ob key = HUndefined"
  by (cases ob) (auto simp: fmdom_notD split: option.splits)

text \<open>Off \<open>__proto__\<close> the two loops are one.\<close>

lemma sdk_walk_eq:
  "''__proto__'' \<notin> set parts \<Longrightarrow> current < length h \<Longrightarrow>
     setByPath_walk h current parts = setJsonPath_walk h current parts"
proof (induction parts arbitrary: h current)
  case Nil
  show ?case by simp
next
  case (Cons part parts)
  let ?old = "h_get_prop h (HRef current) part"
  from Cons.prems have no: "\<not> proto_accessor h current part"
    by (auto simp: proto_accessor_def)
  have test: "(?old = HUndefined \<or> h_typeof ?old \<noteq> TObject)
      = (\<not> has_prop (h ! current) part \<or> h_typeof ?old \<noteq> TObject)"
    using Cons.prems(2) own_prop_missing [of "h ! current" part]
    by (cases "?old = HUndefined") auto
  define ob where "ob = (if \<not> has_prop (h ! current) part \<or> h_typeof ?old \<noteq> TObject
        then HObject fmempty else HObject (h_spread h ?old))"
  define h2 where "h2 = h_set_prop (h @ [ob]) current part (HRef (length h))"
  have l: "setJsonPath_walk h current (part # parts) = setJsonPath_walk h2 (length h) parts"
    by (auto simp: Let_def alloc_def ob_def h2_def)
  have r: "setByPath_walk h current (part # parts) = setByPath_walk h2 (length h) parts"
    using no test by (auto simp: Let_def alloc_def ob_def h2_def)
  have "length h < length h2" by (simp add: h2_def)
  with Cons.prems(1) have "setByPath_walk h2 (length h) parts = setJsonPath_walk h2 (length h) parts"
    by (intro Cons.IH) simp_all
  with l r show ?case by simp
qed

lemma spread_same:
  assumes "take n h' = take n h" "n \<le> length h" "n \<le> length h'" "val_in n x"
  shows "h_spread h' x = h_spread h x"
proof (cases x)
  case (HRef a)
  with assms(4) have a: "a < n" by simp
  with assms(1) have "h' ! a = h ! a" by (metis nth_take)
  with HRef a assms(2,3) show ?thesis by simp
qed simp_all

lemma spread_values_in:
  assumes cl: "heap_closed h" and old: "val_in (length h) old"
    and look: "fmlookup (h_spread h old) k = Some x"
  shows "val_in (length h) x"
proof (cases old)
  case (HRef a)
  with old have a: "a < length h" by simp
  with cl have ob: "obj_in (length h) (h ! a)"
    by (simp add: heap_closed_def list_all_length)
  show ?thesis
  proof (cases "h ! a")
    case (HObject m)
    with ob look HRef a show ?thesis by (auto dest: fmpredD)
  next
    case (HArray xs)
    with look HRef a have "map_of (zip (map show_nat [0..<length xs]) xs) k = Some x"
      by (simp add: fmlookup_of_list)
    then have "x \<in> set xs" by (meson map_of_SomeD set_zip_rightD)
    with ob HArray show ?thesis by (simp add: list_all_iff)
  qed
next
  case (HStr s)
  with look have "map_of (zip (map show_nat [0..<length s]) (map (\<lambda>c. HStr [c]) s)) k = Some x"
    by (simp add: fmlookup_of_list)
  then have "x \<in> set (map (\<lambda>c. HStr [c]) s)" by (meson map_of_SomeD set_zip_rightD)
  then show ?thesis by auto
qed (use look in simp_all)

lemma child_source_in:
  assumes "heap_closed h" "val_in (length h) old"
  shows "val_in (length h) (child_source h old part)"
proof (cases "fmlookup (h_spread h old) part")
  case None
  then show ?thesis by (simp add: child_source_def)
next
  case (Some x)
  with assms have "val_in (length h) x" by (rule spread_values_in)
  with Some show ?thesis by (simp add: child_source_def Let_def)
qed

text \<open>The object allocated at a part is the copy of the child source, taken in the caller's heap.\<close>

lemma fresh_child:
  assumes cl: "heap_closed h0" and old: "val_in (length h0) old"
    and fr: "take (length h0) h = h0" and cur: "cur < length h"
    and copy: "h ! cur = HObject (h_spread h0 old)"
  shows "(if \<not> has_prop (h ! cur) part \<or> h_typeof (h_get_prop h (HRef cur) part) \<noteq> TObject
          then HObject fmempty
          else HObject (h_spread h (h_get_prop h (HRef cur) part)))
         = HObject (h_spread h0 (child_source h0 old part))"
proof -
  let ?x = "own_prop (HObject (h_spread h0 old)) part"
  from cur copy have x: "h_get_prop h (HRef cur) part = ?x" by simp
  from fr have len: "length h0 \<le> length h" by (metis length_take min.cobounded1)
  show ?thesis
  proof (cases "h_typeof ?x = TObject")
    case False
    with x show ?thesis by (simp add: child_source_def Let_def)
  next
    case True
    have present: "has_prop (h ! cur) part"
    proof (rule ccontr)
      assume "\<not> has_prop (h ! cur) part"
      then have "own_prop (h ! cur) part = HUndefined" by (rule own_prop_missing)
      with copy True show False by simp
    qed
    then obtain y where y: "fmlookup (h_spread h0 old) part = Some y"
      using copy by (auto simp: fmlookup_dom_iff)
    then have xy: "?x = y" by simp
    from cl old y have "val_in (length h0) y" by (rule spread_values_in)
    with fr len have "h_spread h y = h_spread h0 y"
      by (intro spread_same) simp_all
    with True present x xy show ?thesis by (simp add: child_source_def Let_def)
  qed
qed

lemma walk_path_copy:
  assumes cl: "heap_closed h0"
  shows "parts \<noteq> [] \<Longrightarrow> val_in (length h0) old \<Longrightarrow> length h0 \<le> cur \<Longrightarrow> cur < length h \<Longrightarrow>
     take (length h0) h = h0 \<Longrightarrow> h ! cur = HObject (h_spread h0 old) \<Longrightarrow>
     setJsonPath_walk h cur (butlast parts) = (h2, c) \<Longrightarrow>
     path_copy h0 (h_set_prop h2 c (last parts) v) old cur parts v"
proof (induction parts arbitrary: h cur old)
  case Nil
  then show ?case by simp
next
  case (Cons p ps)
  note old = Cons.prems(2) and base = Cons.prems(3) and cur = Cons.prems(4)
    and fr = Cons.prems(5) and copy = Cons.prems(6) and run = Cons.prems(7)
  show ?case
  proof (cases ps)
    case Nil
    with run have "h2 = h" "c = cur" by simp_all
    with Nil base cur copy show ?thesis
      by (simp add: nth_set_prop_same)
  next
    case (Cons q qs)
    then have ps: "ps \<noteq> []" by simp
    let ?old' = "child_source h0 old p"
    define hA where "hA = h_set_prop (h @ [HObject (h_spread h0 ?old')]) cur p (HRef (length h))"
    have "setJsonPath_walk h cur (p # butlast ps) =
        setJsonPath_walk
          (h_set_prop
             (h @ [if \<not> has_prop (h ! cur) p \<or> h_typeof (h_get_prop h (HRef cur) p) \<noteq> TObject
                   then HObject fmempty
                   else HObject (h_spread h (h_get_prop h (HRef cur) p))])
             cur p (HRef (length h)))
          (length h) (butlast ps)"
      by (cases "\<not> has_prop (h ! cur) p \<or> h_typeof (h_get_prop h (HRef cur) p) \<noteq> TObject")
         (simp_all add: Let_def alloc_def)
    then have step: "setJsonPath_walk h cur (p # butlast ps)
        = setJsonPath_walk hA (length h) (butlast ps)"
      unfolding hA_def by (simp only: fresh_child [OF cl old fr cur copy, of p])
    with Cons run have walk: "setJsonPath_walk hA (length h) (butlast ps) = (h2, c)"
      by simp
    have lenA: "length hA = Suc (length h)" by (simp add: hA_def)
    then have in_hA: "length h < length hA" by simp
    from fr have len0: "length h0 \<le> length h" by (metis length_take min.cobounded1)
    from cur have child: "hA ! length h = HObject (h_spread h0 ?old')"
      by (simp add: hA_def nth_set_prop_other)
    from base fr len0 have frA: "take (length h0) hA = h0"
      by (simp add: hA_def h_set_prop_def take_update_cancel)
    from cl old have old': "val_in (length h0) ?old'" by (rule child_source_in)
    have inner: "path_copy h0 (h_set_prop h2 c (last ps) v) ?old' (length h) ps v"
      by (rule Cons.IH [OF ps old' len0 in_hA frA child walk])
    from setJsonPath_walk_cells [OF walk in_hA]
    have keep: "\<forall>a<length hA. a \<noteq> length h \<longrightarrow> h2 ! a = hA ! a"
      and grow: "length hA \<le> length h2"
      and c: "length h \<le> c"
      using lenA by (auto split: list.splits)
    from cur copy have "hA ! cur = HObject (fmupd p (HRef (length h)) (h_spread h0 old))"
      by (simp add: hA_def nth_set_prop_same nth_append)
    with keep lenA cur have "h2 ! cur = HObject (fmupd p (HRef (length h)) (h_spread h0 old))"
      by simp
    with c cur have top: "h_set_prop h2 c (last ps) v ! cur
        = HObject (fmupd p (HRef (length h)) (h_spread h0 old))"
      by (simp add: nth_set_prop_other)
    from cur grow lenA have "cur < length (h_set_prop h2 c (last ps) v)" by simp
    with top inner base cur ps Cons show ?thesis by simp
  qed
qed

lemma snapshot_frame:
  assumes fr: "take (length h) h' = h" and cl: "heap_closed h"
  shows "val_in (length h) x \<Longrightarrow> snapshot n h' x = snapshot n h x"
proof (induction n arbitrary: x)
  case 0
  show ?case by simp
next
  case (Suc n)
  show ?case
  proof (cases x)
    case (HRef a)
    with Suc.prems have a: "a < length h" by simp
    from fr have len: "length h \<le> length h'"
      by (metis length_take min.cobounded1)
    from fr a have same: "h' ! a = h ! a"
      by (metis nth_take)
    from cl a have ob: "obj_in (length h) (h ! a)"
      by (simp add: heap_closed_def list_all_length)
    show ?thesis
    proof (cases "h ! a")
      case (HObject m)
      with ob have "\<And>z. z \<in> fmran' m \<Longrightarrow> val_in (length h) z"
        by (auto simp: fmpred_iff fmran'_def)
      then have "fmmap (snapshot n h') m = fmmap (snapshot n h) m"
        by (intro fmap.map_cong0 Suc.IH)
      with HRef a len same HObject show ?thesis by simp
    next
      case (HArray xs)
      with ob have "\<And>z. z \<in> set xs \<Longrightarrow> val_in (length h) z"
        by (simp add: list_all_iff)
      then have "map (snapshot n h') xs = map (snapshot n h) xs"
        by (intro map_cong refl Suc.IH)
      with HRef a len same HArray show ?thesis by simp
    qed
  qed simp_all
qed

lemma setJsonPath_walk_length:
  "setJsonPath_walk h current parts = (h', c') \<Longrightarrow> length h' = length h + length parts"
proof (induction parts arbitrary: h current)
  case Nil
  then show ?case by simp
next
  case (Cons part parts)
  define ob where "ob = (if \<not> has_prop (h ! current) part
        \<or> h_typeof (h_get_prop h (HRef current) part) \<noteq> TObject
      then HObject fmempty
      else HObject (h_spread h (h_get_prop h (HRef current) part)))"
  from Cons.prems have "setJsonPath_walk (h_set_prop (h @ [ob]) current part (HRef (length h)))
      (length h) parts = (h', c')"
    by (auto simp: Let_def alloc_def ob_def)
  from Cons.IH [OF this] show ?case by simp
qed

lemma setByPath_walk_length:
  "setByPath_walk h current parts = (h', c') \<Longrightarrow> length h' = length h + length parts"
proof (induction parts arbitrary: h current)
  case Nil
  then show ?case by simp
next
  case (Cons part parts)
  show ?case
  proof (cases "proto_accessor h current part")
    case True
    with Cons.prems have "setByPath_walk (h @ [HObject fmempty]) (length h) parts = (h', c')"
      by (simp add: alloc_def)
    from Cons.IH [OF this] show ?thesis by simp
  next
    case False
    define ob where "ob = (if h_get_prop h (HRef current) part = HUndefined
          \<or> h_typeof (h_get_prop h (HRef current) part) \<noteq> TObject
        then HObject fmempty
        else HObject (h_spread h (h_get_prop h (HRef current) part)))"
    from Cons.prems False
    have "setByPath_walk (h_set_prop (h @ [ob]) current part (HRef (length h)))
        (length h) parts = (h', c')"
      by (auto simp: Let_def alloc_def ob_def)
    from Cons.IH [OF this] show ?thesis by simp
  qed
qed

lemma length_split_parts: "length (butlast (split d s)) + 1 = length (split d s)"
  using split_not_Nil [of d s] by (cases "split d s") simp_all

lemma setJsonPath_heap_result:
  assumes run: "setJsonPath_heap h t path v = Inr (h', r)"
  shows "take (length h) h' = h"
    and "path = [] \<or> path = ''$'' \<Longrightarrow> h' = h \<and> r = v"
    and "path \<noteq> [] \<and> path \<noteq> ''$'' \<Longrightarrow>
           r = HRef (length h)
           \<and> length h' = length h + length (split CHR ''.'' (strip_root path))"
    and "path \<noteq> [] \<and> path \<noteq> ''$'' \<Longrightarrow> heap_closed h \<Longrightarrow> val_in (length h) t \<Longrightarrow>
           path_copy h h' t (length h) (split CHR ''.'' (strip_root path)) v"
proof -
  show root: "h' = h \<and> r = v" if "path = [] \<or> path = ''$''"
    using that run by (auto simp: setJsonPath_heap_def)
  let ?parts = "split CHR ''.'' (strip_root path)"
  let ?h1 = "h @ [HObject (h_spread h t)]"
  obtain h2 c where walk: "setJsonPath_walk ?h1 (length h) (butlast ?parts) = (h2, c)"
    by (cases "setJsonPath_walk ?h1 (length h) (butlast ?parts)") auto
  have in_h1: "length h < length ?h1" by simp
  have res: "h' = h_set_prop h2 c (last ?parts) v \<and> r = HRef (length h)"
    if "path \<noteq> [] \<and> path \<noteq> ''$''"
  proof -
    from run that have "validatePath path = Inr ()"
      by (auto simp: setJsonPath_heap_def split: sum.splits)
    with run that walk show ?thesis
      by (simp add: setJsonPath_heap_def alloc_def Let_def)
  qed
  from setJsonPath_walk_cells [OF walk in_h1]
  have keep: "\<forall>a<length ?h1. a \<noteq> length h \<longrightarrow> h2 ! a = ?h1 ! a"
    and grow: "length ?h1 \<le> length h2"
    and c: "length h \<le> c"
    by (auto split: list.splits)
  show "take (length h) h' = h"
  proof (cases "path = [] \<or> path = ''$''")
    case True
    with root show ?thesis by simp
  next
    case False
    with res have h': "h' = h_set_prop h2 c (last ?parts) v" by simp
    have "h' ! a = h ! a" if "a < length h" for a
      using that keep c h' by (simp add: nth_set_prop_other nth_append)
    moreover have "length h \<le> length h'" using grow h' by simp
    ultimately show ?thesis by (intro nth_equalityI) simp_all
  qed
  show "r = HRef (length h) \<and> length h' = length h + length ?parts"
    if "path \<noteq> [] \<and> path \<noteq> ''$''"
    using res [OF that] setJsonPath_walk_length [OF walk] length_split_parts [of "CHR ''.''" "strip_root path"]
    by simp
  show "path_copy h h' t (length h) ?parts v"
    if "path \<noteq> [] \<and> path \<noteq> ''$''" "heap_closed h" "val_in (length h) t"
  proof -
    have "path_copy h (h_set_prop h2 c (last ?parts) v) t (length h) ?parts v"
      by (rule walk_path_copy [OF that(2) split_not_Nil that(3) _ in_h1 _ _ walk]) simp_all
    with res [OF that(1)] show ?thesis by simp
  qed
qed

lemma setByPath_heap_result:
  assumes run: "setByPath_heap h t path v = (h', r)"
  shows "take (length h) h' = h"
    and "path = [] \<Longrightarrow> h' = h \<and> r = t"
    and "path \<noteq> [] \<Longrightarrow>
           r = HRef (length h) \<and> length h' = length h + length (split CHR ''.'' path)"
    and "path \<noteq> [] \<Longrightarrow> heap_closed h \<Longrightarrow> val_in (length h) t \<Longrightarrow>
           ''__proto__'' \<notin> set (split CHR ''.'' path) \<Longrightarrow>
           path_copy h h' t (length h) (split CHR ''.'' path) v"
proof -
  show root: "h' = h \<and> r = t" if "path = []"
    using that run by (simp add: setByPath_heap_def)
  let ?parts = "split CHR ''.'' path"
  let ?h1 = "h @ [HObject (h_spread h t)]"
  obtain h2 c where walk: "setByPath_walk ?h1 (length h) (butlast ?parts) = (h2, c)"
    by (cases "setByPath_walk ?h1 (length h) (butlast ?parts)") auto
  have in_h1: "length h < length ?h1" by simp
  have res: "h' = (if proto_accessor h2 c (last ?parts) then h2
                   else h_set_prop h2 c (last ?parts) v) \<and> r = HRef (length h)"
    if "path \<noteq> []"
    using run that walk by (simp add: setByPath_heap_def alloc_def Let_def)
  from setByPath_walk_frame [OF walk order_refl in_h1]
  have frame2: "take (length h) h2 = h" and c: "length h \<le> c" and c2: "c < length h2"
    by simp_all
  show "take (length h) h' = h"
  proof (cases "path = []")
    case True
    with root show ?thesis by simp
  next
    case False
    from c have "take (length h) (h_set_prop h2 c (last ?parts) v) = take (length h) h2"
      by (simp add: h_set_prop_def take_update_cancel)
    with res [OF False] frame2 show ?thesis by simp
  qed
  show "r = HRef (length h) \<and> length h' = length h + length ?parts" if "path \<noteq> []"
    using res [OF that] setByPath_walk_length [OF walk] length_split_parts [of "CHR ''.''" path]
    by simp
  show "path_copy h h' t (length h) ?parts v"
    if ne: "path \<noteq> []" and cl: "heap_closed h" and t: "val_in (length h) t"
      and free: "''__proto__'' \<notin> set ?parts"
  proof -
    from free have "''__proto__'' \<notin> set (butlast ?parts)"
      by (meson in_set_butlastD)
    with walk in_h1 have walk': "setJsonPath_walk ?h1 (length h) (butlast ?parts) = (h2, c)"
      by (simp add: sdk_walk_eq)
    from free split_not_Nil [of "CHR ''.''" path] have "last ?parts \<noteq> ''__proto__''"
      by (metis last_in_set)
    then have "\<not> proto_accessor h2 c (last ?parts)" by (simp add: proto_accessor_def)
    with res [OF ne] have h': "h' = h_set_prop h2 c (last ?parts) v" by simp
    have "path_copy h (h_set_prop h2 c (last ?parts) v) t (length h) ?parts v"
      by (rule walk_path_copy [OF cl split_not_Nil t _ in_h1 _ _ walk']) simp_all
    with h' show ?thesis by simp
  qed
qed

text \<open>
  Claim C3. Whatever the heap, the tree, the path and the value: after \<open>setJsonPath\<close>
  (when the path is accepted) and after \<open>setByPath\<close>, every object that existed before the
  call is unchanged, so in a closed heap the caller's tree reads the same at every depth
  before and after. At the root path (\<open>$\<close> or empty for \<open>setJsonPath\<close>, empty for
  \<open>setByPath\<close>) nothing is allocated and the value, respectively the tree, is returned
  as it is. At any other path the result is a newly allocated object and exactly one
  object is allocated per segment of the path; in a closed heap these objects are, level
  by level, the shallow copies of the caller's objects along the path with the one
  property on the path rebound (\<open>path_copy\<close>), so every branch off the path is the
  caller's own object, shared. For \<open>setByPath\<close> the shape is stated for paths without a
  segment \<open>__proto__\<close>, at which the code rebinds a prototype.
\<close>

theorem set_leaves_input_untouched:
  "(setJsonPath_heap h t path v = Inr (h', r) \<longrightarrow>
      take (length h) h' = h
      \<and> (heap_closed h \<and> val_in (length h) t \<longrightarrow> (\<forall>n. snapshot n h' t = snapshot n h t))
      \<and> (path = [] \<or> path = ''$'' \<longrightarrow> h' = h \<and> r = v)
      \<and> (path \<noteq> [] \<and> path \<noteq> ''$'' \<longrightarrow>
           r = HRef (length h)
           \<and> length h' = length h + length (split CHR ''.'' (strip_root path))
           \<and> (heap_closed h \<and> val_in (length h) t \<longrightarrow>
                path_copy h h' t (length h) (split CHR ''.'' (strip_root path)) v)))
   \<and> (setByPath_heap h t path v = (h', r) \<longrightarrow>
      take (length h) h' = h
      \<and> (heap_closed h \<and> val_in (length h) t \<longrightarrow> (\<forall>n. snapshot n h' t = snapshot n h t))
      \<and> (path = [] \<longrightarrow> h' = h \<and> r = t)
      \<and> (path \<noteq> [] \<longrightarrow>
           r = HRef (length h)
           \<and> length h' = length h + length (split CHR ''.'' path)
           \<and> (heap_closed h \<and> val_in (length h) t
                \<and> ''__proto__'' \<notin> set (split CHR ''.'' path) \<longrightarrow>
                path_copy h h' t (length h) (split CHR ''.'' path) v)))"
proof (intro conjI impI allI)
  assume run: "setJsonPath_heap h t path v = Inr (h', r)"
  note res = setJsonPath_heap_result [OF run]
  show fr: "take (length h) h' = h" by (rule res(1))
  {
    fix n
    assume "heap_closed h \<and> val_in (length h) t"
    with fr show "snapshot n h' t = snapshot n h t"
      by (simp add: snapshot_frame)
  }
  {
    assume "path = [] \<or> path = ''$''"
    from res(2) [OF this] show "h' = h" and "r = v" by simp_all
  }
  {
    assume ne: "path \<noteq> [] \<and> path \<noteq> ''$''"
    from res(3) [OF ne] show "r = HRef (length h)"
      and "length h' = length h + length (split CHR ''.'' (strip_root path))"
      by simp_all
    assume "heap_closed h \<and> val_in (length h) t"
    with res(4) [OF ne] show "path_copy h h' t (length h) (split CHR ''.'' (strip_root path)) v"
      by simp
  }
next
  assume run: "setByPath_heap h t path v = (h', r)"
  note res = setByPath_heap_result [OF run]
  show fr: "take (length h) h' = h" by (rule res(1))
  {
    fix n
    assume "heap_closed h \<and> val_in (length h) t"
    with fr show "snapshot n h' t = snapshot n h t"
      by (simp add: snapshot_frame)
  }
  {
    assume "path = []"
    from res(2) [OF this] show "h' = h" and "r = t" by simp_all
  }
  {
    assume ne: "path \<noteq> []"
    from res(3) [OF ne] show "r = HRef (length h)"
      and "length h' = length h + length (split CHR ''.'' path)"
      by simp_all
    assume "heap_closed h \<and> val_in (length h) t \<and> ''__proto__'' \<notin> set (split CHR ''.'' path)"
    with res(4) [OF ne] show "path_copy h h' t (length h) (split CHR ''.'' path) v"
      by simp
  }
qed

lemmas heap_eval = setJsonPath_heap_def setByPath_heap_def alloc_def h_set_prop_def Let_def
  proto_accessor_def demo_heap_def deep_heap_def path_eval

lemma deep_run:
  "setJsonPath_heap deep_heap (HRef 0) ''$.a.b.d'' (HStr ''x'') = Inr (deep_heap', HRef 4)"
  by (simp add: heap_eval deep_heap'_def eval_nat_numeral)

lemma deep_run_sdk:
  "setByPath_heap deep_heap (HRef 0) ''a.b.d'' (HStr ''x'') = (deep_heap', HRef 4)"
  by (simp add: heap_eval deep_heap'_def eval_nat_numeral)

lemma deep_closed: "heap_closed deep_heap \<and> val_in (length deep_heap) (HRef 0)"
  by (auto simp: heap_closed_def deep_heap_def intro!: fmpred_upd)

lemma deep_free: "''__proto__'' \<notin> set (split CHR ''.'' ''a.b.d'')"
  by simp

theorem set_leaves_input_untouched_witness:
  "setJsonPath_heap deep_heap (HRef 0) ''$.a.b.d'' (HStr ''x'') = Inr (deep_heap', HRef 4)
   \<and> setByPath_heap deep_heap (HRef 0) ''a.b.d'' (HStr ''x'') = (deep_heap', HRef 4)
   \<and> heap_closed deep_heap \<and> val_in (length deep_heap) (HRef 0)
   \<and> ''__proto__'' \<notin> set (split CHR ''.'' ''a.b.d'')
   \<and> take (length deep_heap) deep_heap' = deep_heap
   \<and> snapshot 4 deep_heap' (HRef 0) = snapshot 4 deep_heap (HRef 0)
   \<and> path_copy deep_heap deep_heap' (HRef 0) (length deep_heap)
        (split CHR ''.'' (strip_root ''$.a.b.d'')) (HStr ''x'')
   \<and> path_copy deep_heap deep_heap' (HRef 0) (length deep_heap)
        (split CHR ''.'' ''a.b.d'') (HStr ''x'')"
proof -
  note rt = set_leaves_input_untouched [of deep_heap "HRef 0" "''$.a.b.d''" "HStr ''x''"
      deep_heap' "HRef 4"]
  note sdk = set_leaves_input_untouched [of deep_heap "HRef 0" "''a.b.d''" "HStr ''x''"
      deep_heap' "HRef 4"]
  have ne: "''$.a.b.d'' \<noteq> [] \<and> ''$.a.b.d'' \<noteq> ''$''" "''a.b.d'' \<noteq> []" by simp_all
  from rt deep_run have fr: "take (length deep_heap) deep_heap' = deep_heap" by blast
  from rt deep_run deep_closed
  have "\<forall>n. snapshot n deep_heap' (HRef 0) = snapshot n deep_heap (HRef 0)" by blast
  then have snap: "snapshot 4 deep_heap' (HRef 0) = snapshot 4 deep_heap (HRef 0)" by (rule spec)
  from rt deep_run deep_closed ne(1)
  have pc: "path_copy deep_heap deep_heap' (HRef 0) (length deep_heap)
        (split CHR ''.'' (strip_root ''$.a.b.d'')) (HStr ''x'')" by blast
  from sdk deep_run_sdk deep_closed deep_free ne(2)
  have pc_sdk: "path_copy deep_heap deep_heap' (HRef 0) (length deep_heap)
        (split CHR ''.'' ''a.b.d'') (HStr ''x'')" by blast
  from deep_run deep_run_sdk deep_closed deep_free fr snap pc pc_sdk show ?thesis by blast
qed

subsection \<open>Reading back what was written\<close>

lemma get_after_walk:
  "parts \<noteq> [] \<Longrightarrow> cur < length h \<Longrightarrow> h ! cur = HObject m \<Longrightarrow>
   setJsonPath_walk h cur (butlast parts) = (h2, c) \<Longrightarrow>
   getJsonPath_walk (h_set_prop h2 c (last parts) v) (HRef cur) parts = v"
proof (induction parts arbitrary: h cur m)
  case Nil
  then show ?case by simp
next
  case (Cons p ps)
  show ?case
  proof (cases ps)
    case Nil
    with Cons.prems have "h2 = h" "c = cur" by simp_all
    with Nil Cons.prems show ?thesis
      by (simp add: h_set_prop_def)
  next
    case (Cons q qs)
    define ob where "ob = (if \<not> has_prop (h ! cur) p
          \<or> h_typeof (h_get_prop h (HRef cur) p) \<noteq> TObject
        then HObject fmempty
        else HObject (h_spread h (h_get_prop h (HRef cur) p)))"
    define hA where "hA = h_set_prop (h @ [ob]) cur p (HRef (length h))"
    have "\<exists>m'. ob = HObject m'" unfolding ob_def by (rule if_split [THEN iffD2]) blast
    then obtain m' where ob: "ob = HObject m'" by blast
    from Cons Cons.prems(4) have walk: "setJsonPath_walk hA (length h) (butlast ps) = (h2, c)"
      by (auto simp: Let_def alloc_def ob_def hA_def)
    have lenA: "length hA = Suc (length h)" by (simp add: hA_def)
    then have in_hA: "length h < length hA" by simp
    from Cons.prems(2) have child: "hA ! length h = HObject m'"
      by (simp add: hA_def nth_set_prop_other ob)
    from Cons have ps: "ps \<noteq> []" by simp
    have inner: "getJsonPath_walk (h_set_prop h2 c (last ps) v) (HRef (length h)) ps = v"
      by (rule Cons.IH [OF ps in_hA child walk])
    from setJsonPath_walk_cells [OF walk in_hA]
    have keep: "\<forall>a<length hA. a \<noteq> length h \<longrightarrow> h2 ! a = hA ! a"
      and grow: "length hA \<le> length h2"
      and c: "length h \<le> c"
      using lenA by (auto split: list.splits)
    from Cons.prems(2,3) have "hA ! cur = HObject (fmupd p (HRef (length h)) m)"
      by (simp add: hA_def nth_set_prop_same nth_append)
    with keep lenA Cons.prems(2) have "h2 ! cur = HObject (fmupd p (HRef (length h)) m)"
      by simp
    with c Cons.prems(2) have "h_set_prop h2 c (last ps) v ! cur = HObject (fmupd p (HRef (length h)) m)"
      by (simp add: nth_set_prop_other)
    moreover from Cons.prems(2) grow lenA have "cur < length (h_set_prop h2 c (last ps) v)"
      by simp
    ultimately have "h_get_prop (h_set_prop h2 c (last ps) v) (HRef cur) p = HRef (length h)"
      by simp
    with inner ps show ?thesis by simp
  qed
qed

lemma heap_set_then_get:
  assumes "setJsonPath_heap h t path v = Inr (h', r)"
  shows "getJsonPath_heap h' r path = Inr v"
proof (cases "path = [] \<or> path = ''$''")
  case True
  with assms show ?thesis by (auto simp: setJsonPath_heap_def getJsonPath_heap_def)
next
  case False
  let ?parts = "split CHR ''.'' (strip_root path)"
  let ?h1 = "h @ [HObject (h_spread h t)]"
  obtain h2 c where walk: "setJsonPath_walk ?h1 (length h) (butlast ?parts) = (h2, c)"
    by (cases "setJsonPath_walk ?h1 (length h) (butlast ?parts)") auto
  from assms False have ok: "validatePath path = Inr ()"
    by (auto simp: setJsonPath_heap_def split: sum.splits)
  with assms False walk have h': "h' = h_set_prop h2 c (last ?parts) v" and r: "r = HRef (length h)"
    by (simp_all add: setJsonPath_heap_def alloc_def Let_def)
  have "getJsonPath_walk (h_set_prop h2 c (last ?parts) v) (HRef (length h)) ?parts = v"
    by (rule get_after_walk [OF split_not_Nil _ _ walk]) simp_all
  with h' r False ok show ?thesis by (simp add: getJsonPath_heap_def)
qed

lemma heap_set_succeeds:
  "path = [] \<or> validatePath path = Inr () \<Longrightarrow> \<exists>h' r. setJsonPath_heap h t path v = Inr (h', r)"
  by (auto simp: setJsonPath_heap_def alloc_def Let_def split: prod.splits)

lemma demo_run:
  "setJsonPath_heap demo_heap (HRef 0) ''$.a.b'' (HStr ''x'') =
     Inr (demo_heap @
            [HObject (fmupd ''a'' (HRef 4) (fmupd ''c'' (HRef 2) fmempty)),
             HObject (fmupd ''b'' (HStr ''x'') fmempty)],
          HRef 3)"
  by (simp add: heap_eval eval_nat_numeral)

text \<open>
  Claim C2. For every path the resolver accepts (the empty path, \<open>$\<close>, or one that
  passes \<open>validatePath\<close>), every tree and every value, \<open>setJsonPath\<close> returns a tree and
  \<open>getJsonPath\<close> on that tree at the same path returns the value that was set. The tree
  is arbitrary, so nodes along the path may be missing or may be numbers, strings,
  \<open>null\<close> or arrays. The same holds on the heap, where the value read back is the very
  value (the same reference) that was written.
\<close>

theorem get_after_set:
  "(path = [] \<or> validatePath path = Inr () \<longrightarrow>
      (\<exists>t'. setJsonPath t path v = Inr t' \<and> getJsonPath t' path = Inr v))
   \<and> (path = [] \<or> validatePath path = Inr () \<longrightarrow>
      (\<exists>h' r. setJsonPath_heap h x path w = Inr (h', r) \<and> getJsonPath_heap h' r path = Inr w))"
proof (intro conjI impI)
  assume ok: "path = [] \<or> validatePath path = Inr ()"
  then obtain t' where "setJsonPath t path v = Inr t'"
    using set_succeeds by blast
  then show "\<exists>t'. setJsonPath t path v = Inr t' \<and> getJsonPath t' path = Inr v"
    using set_then_get by blast
  from ok obtain h' r where "setJsonPath_heap h x path w = Inr (h', r)"
    using heap_set_succeeds by blast
  then show "\<exists>h' r. setJsonPath_heap h x path w = Inr (h', r) \<and> getJsonPath_heap h' r path = Inr w"
    using heap_set_then_get by blast
qed

theorem get_after_set_witness:
  "validatePath ''$.a.b'' = Inr ()
   \<and> setJsonPath (JObj (fmupd ''a'' (JNum 5) fmempty)) ''$.a.b'' (JStr ''x'')
       = Inr (JObj (fmupd ''a'' (JObj (fmupd ''b'' (JStr ''x'') fmempty)) fmempty))
   \<and> getJsonPath (JObj (fmupd ''a'' (JObj (fmupd ''b'' (JStr ''x'') fmempty)) fmempty)) ''$.a.b''
       = Inr (JStr ''x'')
   \<and> getJsonPath_heap
        (demo_heap @ [HObject (fmupd ''a'' (HRef 4) (fmupd ''c'' (HRef 2) fmempty)),
                      HObject (fmupd ''b'' (HStr ''x'') fmempty)]) (HRef 3) ''$.a.b''
       = Inr (HStr ''x'')"
proof -
  have ok: "validatePath ''$.a.b'' = Inr ()"
    by (simp add: path_eval)
  have st: "setJsonPath (JObj (fmupd ''a'' (JNum 5) fmempty)) ''$.a.b'' (JStr ''x'')
       = Inr (JObj (fmupd ''a'' (JObj (fmupd ''b'' (JStr ''x'') fmempty)) fmempty))"
    by (simp add: setJsonPath_def path_eval)
  note t = get_after_set [of "''$.a.b''" "JObj (fmupd ''a'' (JNum 5) fmempty)" "JStr ''x''"
      demo_heap "HRef 0" "HStr ''x''"]
  from t ok st have pure: "getJsonPath (JObj (fmupd ''a'' (JObj (fmupd ''b'' (JStr ''x'') fmempty))
      fmempty)) ''$.a.b'' = Inr (JStr ''x'')"
    by auto
  from t ok demo_run have "getJsonPath_heap
        (demo_heap @ [HObject (fmupd ''a'' (HRef 4) (fmupd ''c'' (HRef 2) fmempty)),
                      HObject (fmupd ''b'' (HStr ''x'') fmempty)]) (HRef 3) ''$.a.b''
       = Inr (HStr ''x'')"
    by auto
  with ok st pure show ?thesis by blast
qed

subsection \<open>Publishing\<close>

lemma published_le_max:
  "r \<in> set store \<Longrightarrow> published_number k key r \<le> max_published store k key"
  unfolding max_published_def
  by (induction store) (auto simp: max_def)

lemma max_published_filter:
  "max_published (filter is_published store) k key = max_published store k key"
  unfolding max_published_def
  by (induction store) (auto simp: is_published_def split: version_tag.splits)

lemma max_published_snoc:
  "max_published (store @ [r]) k key = max (max_published store k key) (published_number k key r)"
  unfolding max_published_def
  by (induction store) (auto simp: max_def)

lemma getPublished_filter:
  "getPublished (filter is_published store) k key n = getPublished store k key n"
  unfolding getPublished_def
  by (induction store) (auto simp: is_published_def is_version_of_def)

lemma getPublished_above_max:
  "max_published store k key < n \<Longrightarrow> getPublished store k key n = None"
proof -
  assume above: "max_published store k key < n"
  have "\<not> is_version_of k key n r" if "r \<in> set store" for r
  proof
    assume "is_version_of k key n r"
    then have "published_number k key r = n" by (simp add: is_version_of_def)
    with published_le_max [OF that, of k key] above show False by simp
  qed
  then show ?thesis by (auto simp: getPublished_def find_None_iff)
qed

lemma find_append: "find P (xs @ ys) = (case find P xs of Some x \<Rightarrow> Some x | None \<Rightarrow> find P ys)"
  by (induction xs) auto

lemma getPublished_snoc:
  "getPublished (store @ [r]) k key n =
     (case getPublished store k key n of
        Some x \<Rightarrow> Some x
      | None \<Rightarrow> if is_version_of k key n r then Some r else None)"
  by (simp add: getPublished_def find_append split: option.splits)

lemma publish_result:
  assumes "publish P s k key = Inr (s', n)"
  shows "\<exists>d. getDraft s k key = Some d \<and> n = max_published s k key + 1 \<and>
           s' = s @ [\<lparr>row_kind = k, logical_key = key, row_version = Published n,
                       row_body = row_body d, row_checksum = checksum_of P (row_body d),
                       created_by = created_by d\<rparr>]"
  using assms
  by (auto simp: publish_def createNextPublishedVersion_def Let_def
           split: option.splits if_splits)

lemma getPublished_same_published:
  "filter is_published s' = filter is_published s \<Longrightarrow> getPublished s' k key n = getPublished s k key n"
  by (metis getPublished_filter)

lemma max_published_same_published:
  "filter is_published s' = filter is_published s \<Longrightarrow> max_published s' k key = max_published s k key"
  by (metis max_published_filter)

lemma name1: "version_name 1 = ''v1''"
  by code_simp
lemma name2: "version_name 2 = ''v2''"
  by code_simp

text \<open>
  Claim C4. When a key is published, then its draft edited in any way that leaves the
  published rows alone, then published again, the second version number is the first plus
  one (so \<open>v1\<close> then \<open>v2\<close> for a key with no published version); the row of the first
  publish holds the body and the checksum of the draft it was made from; looking that
  version up after the second publish returns the same row; and every published row of
  any key that could be looked up before the second publish is returned unchanged after
  it.
\<close>

theorem publish_twice:
  assumes p1: "publish P s k key = Inr (s1, n1)"
    and edits: "filter is_published s1' = filter is_published s1"
    and p2: "publish P s1' k key = Inr (s2, n2)"
  shows "n1 = max_published s k key + 1 \<and> n2 = n1 + 1 \<and> n1 < n2
     \<and> (max_published s k key = 0 \<longrightarrow> version_name n1 = ''v1'' \<and> version_name n2 = ''v2'')
     \<and> (\<exists>d. getDraft s k key = Some d
          \<and> getPublished s1 k key n1 =
              Some \<lparr>row_kind = k, logical_key = key, row_version = Published n1,
                    row_body = row_body d, row_checksum = checksum_of P (row_body d),
                    created_by = created_by d\<rparr>
          \<and> getPublished s2 k key n1 = getPublished s1 k key n1)
     \<and> (\<forall>k' key' n r. getPublished s1 k' key' n = Some r \<longrightarrow> getPublished s2 k' key' n = Some r)"
proof -
  from publish_result [OF p1] obtain d :: definition_row where d: "getDraft s k key = Some d"
    and n1: "n1 = max_published s k key + 1"
    and s1: "s1 = s @ [\<lparr>row_kind = k, logical_key = key, row_version = Published n1,
                       row_body = row_body d, row_checksum = checksum_of P (row_body d),
                       created_by = created_by d\<rparr>]"
    by blast
  let ?r1 = "\<lparr>row_kind = k, logical_key = key, row_version = Published n1,
                       row_body = row_body d, row_checksum = checksum_of P (row_body d),
                       created_by = created_by d\<rparr>"
  from publish_result [OF p2] obtain d2 :: definition_row
    where n2: "n2 = max_published s1' k key + 1"
    and s2: "s2 = s1' @ [\<lparr>row_kind = k, logical_key = key, row_version = Published n2,
                       row_body = row_body d2, row_checksum = checksum_of P (row_body d2),
                       created_by = created_by d2\<rparr>]"
    by blast
  have "published_number k key ?r1 = n1" by simp
  then have "max_published (s @ [?r1]) k key = max (max_published s k key) n1"
    by (simp only: max_published_snoc)
  with n1 s1 have m1: "max_published s1 k key = n1" by simp
  from edits have "max_published s1' k key = max_published s1 k key"
    by (rule max_published_same_published)
  with m1 n2 have n2': "n2 = n1 + 1" by simp
  then have lt: "n1 < n2" by simp
  from n1 have "max_published s k key < n1" by simp
  then have none: "getPublished s k key n1 = None"
    by (rule getPublished_above_max)
  have "is_version_of k key n1 ?r1" by (simp add: is_version_of_def)
  with none have "getPublished (s @ [?r1]) k key n1 = Some ?r1"
    by (simp add: getPublished_snoc)
  with s1 have first: "getPublished s1 k key n1 = Some ?r1" by simp
  have keep: "getPublished s2 k' key' n = Some r" if "getPublished s1 k' key' n = Some r" for k' key' n r
  proof -
    from edits have "getPublished s1' k' key' n = getPublished s1 k' key' n"
      by (rule getPublished_same_published)
    with that have "getPublished s1' k' key' n = Some r" by simp
    then show ?thesis unfolding s2 by (simp add: getPublished_snoc)
  qed
  from first keep have again: "getPublished s2 k key n1 = getPublished s1 k key n1" by simp
  have tags: "max_published s k key = 0 \<longrightarrow> version_name n1 = ''v1'' \<and> version_name n2 = ''v2''"
  proof
    assume "max_published s k key = 0"
    with n1 n2' have "n1 = 1" "n2 = 2" by simp_all
    with name1 name2 show "version_name n1 = ''v1'' \<and> version_name n2 = ''v2''" by simp
  qed
  from d first again have ex: "\<exists>d. getDraft s k key = Some d
          \<and> getPublished s1 k key n1 =
              Some \<lparr>row_kind = k, logical_key = key, row_version = Published n1,
                    row_body = row_body d, row_checksum = checksum_of P (row_body d),
                    created_by = created_by d\<rparr>
          \<and> getPublished s2 k key n1 = getPublished s1 k key n1"
    by blast
  from keep have all: "\<forall>k' key' n r. getPublished s1 k' key' n = Some r \<longrightarrow> getPublished s2 k' key' n = Some r"
    by blast
  from n1 n2' lt tags ex all show ?thesis by (intro conjI)
qed

lemmas store_eval = publish_def getDraft_def getPublished_def createNextPublishedVersion_def
  max_published_def missing_refs_def is_draft_of_def is_version_of_def is_published_def
  demo_pipeline_def demo_row_def Let_def

lemma demo_publish1:
  "publish demo_pipeline [demo_row Draft JNull ''c0''] WizardKind ''w'' =
     Inr ([demo_row Draft JNull ''c0'', demo_row (Published 1) JNull ''c0''], 1)"
  by (simp add: store_eval)

lemma demo_publish2:
  "publish demo_pipeline [demo_row Draft (JBool True) ''c1'', demo_row (Published 1) JNull ''c0'']
       WizardKind ''w'' =
     Inr ([demo_row Draft (JBool True) ''c1'', demo_row (Published 1) JNull ''c0'',
           demo_row (Published 2) (JBool True) ''c1''], 2)"
  by (simp add: store_eval)

lemma demo_edit:
  "filter is_published [demo_row Draft (JBool True) ''c1'', demo_row (Published 1) JNull ''c0'']
   = filter is_published [demo_row Draft JNull ''c0'', demo_row (Published 1) JNull ''c0'']"
  by (simp add: store_eval)

theorem publish_twice_witness:
  "publish demo_pipeline [demo_row Draft JNull ''c0''] WizardKind ''w'' =
     Inr ([demo_row Draft JNull ''c0'', demo_row (Published 1) JNull ''c0''], 1)
   \<and> publish demo_pipeline [demo_row Draft (JBool True) ''c1'', demo_row (Published 1) JNull ''c0'']
       WizardKind ''w'' =
     Inr ([demo_row Draft (JBool True) ''c1'', demo_row (Published 1) JNull ''c0'',
           demo_row (Published 2) (JBool True) ''c1''], 2)
   \<and> version_name 1 = ''v1'' \<and> version_name 2 = ''v2''
   \<and> getPublished [demo_row Draft (JBool True) ''c1'', demo_row (Published 1) JNull ''c0'',
           demo_row (Published 2) (JBool True) ''c1''] WizardKind ''w'' 1
      = Some (demo_row (Published 1) JNull ''c0'')"
proof -
  note t = publish_twice [OF demo_publish1 demo_edit demo_publish2]
  have m: "max_published [demo_row Draft JNull ''c0''] WizardKind ''w'' = 0"
    by (simp add: store_eval)
  have g: "getPublished [demo_row Draft JNull ''c0'', demo_row (Published 1) JNull ''c0'']
             WizardKind ''w'' 1 = Some (demo_row (Published 1) JNull ''c0'')"
    by (simp add: store_eval)
  from t m have "version_name 1 = ''v1'' \<and> version_name 2 = ''v2''" by blast
  moreover from t g have "getPublished [demo_row Draft (JBool True) ''c1'',
           demo_row (Published 1) JNull ''c0'',
           demo_row (Published 2) (JBool True) ''c1''] WizardKind ''w'' 1
      = Some (demo_row (Published 1) JNull ''c0'')" by metis
  ultimately show ?thesis using demo_publish1 demo_publish2 by blast
qed

end
